theory Spec2Isabelle
  imports Complex_Main
begin

section \<open>JavaScript numbers used as 32-bit integers\<close>

text \<open>
  The bitwise operators of JavaScript first convert their operands with ToInt32
  (\<open>&\<close>, \<open><<\<close>, \<open>>>\<close>) and \<open>>>> 0\<close> converts with ToUint32. All intermediate
  values of the generator below are integers far below \<open>2^53\<close>, so the double
  arithmetic in between is exact and is modelled on \<open>int\<close>.
\<close>

definition toInt32 :: "int \<Rightarrow> int" where
  "toInt32 v = (v + 2147483648) mod 4294967296 - 2147483648"

definition toUint32 :: "int \<Rightarrow> int" where
  "toUint32 v = v mod 4294967296"

text \<open>\<open>v & 65535\<close>: the low 16 bits of ToInt32 v.\<close>

definition and65535 :: "int \<Rightarrow> int" where
  "and65535 v = toInt32 v mod 65536"

text \<open>\<open>v >> 16\<close>: arithmetic shift of ToInt32 v (rounds towards minus infinity).\<close>

definition sar16 :: "int \<Rightarrow> int" where
  "sar16 v = toInt32 v div 65536"

text \<open>\<open>v << 16\<close>: shift of ToInt32 v, wrapped to 32 bits.\<close>

definition shl16 :: "int \<Rightarrow> int" where
  "shl16 v = toInt32 (toInt32 v * 65536)"

section \<open>The seeded generator (seededRandom)\<close>

text \<open>
  The closure returned by \<open>seededRandom\<close> owns the two variables \<open>m_z\<close> and \<open>m_w\<close>;
  the record is that closure's state and \<open>rng_next\<close> is one call of it, returning
  the drawn value together with the new state. \<open>& mask\<close> with \<open>mask = 0xffffffff\<close> is
  ToInt32. The same function text appears in the maze generator, the scene builder,
  the debug view and the ceiling lights.
\<close>

record rng =
  m_z :: int
  m_w :: int

definition seededRandom :: "int \<Rightarrow> rng" where
  "seededRandom sd =
     \<lparr> m_z = toInt32 (36969 * and65535 sd + sar16 sd),
       m_w = toInt32 (18000 * and65535 sd + sar16 sd) \<rparr>"

definition rng_result :: "rng \<Rightarrow> int" where
  "rng_result r = toUint32 (shl16 (m_z r) + and65535 (m_w r))"

definition rng_step :: "rng \<Rightarrow> rng" where
  "rng_step r =
     \<lparr> m_z = toInt32 (36969 * and65535 (m_z r) + sar16 (m_z r)),
       m_w = toInt32 (18000 * and65535 (m_w r) + sar16 (m_w r)) \<rparr>"

definition rng_next :: "rng \<Rightarrow> real \<times> rng" where
  "rng_next r = (real_of_int (rng_result (rng_step r)) / 4294967296, rng_step r)"

text \<open>
  \<open>Math.floor(random() * n)\<close> and \<open>random() < 0.1\<close>, each with the new state. The drawn
  value is a multiple of \<open>2^-32\<close> below 1, so the product with a length below \<open>2^21\<close> and
  the comparison with the double 0.1 are exact in double arithmetic.
\<close>

definition randomIndex :: "rng \<Rightarrow> nat \<Rightarrow> nat \<times> rng" where
  "randomIndex r n = (case rng_next r of (v, r') \<Rightarrow> (nat \<lfloor>v * real n\<rfloor>, r'))"

definition randomBelowTenth :: "rng \<Rightarrow> bool \<times> rng" where
  "randomBelowTenth r = (case rng_next r of (v, r') \<Rightarrow> (v < 0.1, r'))"

section \<open>Cells and grids\<close>

datatype js_error = TypeError

record Walls =
  north :: bool
  south :: bool
  east :: bool
  west :: bool

record MazeCell =
  cell_x :: nat
  cell_z :: nat
  walls :: Walls
  visited :: bool

type_synonym Grid = "MazeCell list list"

text \<open>
  A cell object is referred to by its place in the grid (column index, then row
  index); the fields \<open>cell_x\<close> and \<open>cell_z\<close> are the object's own \<open>x\<close> and \<open>z\<close>.
  Reading \<open>grid[i][j]\<close> outside the arrays gives \<open>undefined\<close> and any property
  access on it throws TypeError; \<open>cellAt\<close> is \<open>None\<close> there.
\<close>

type_synonym cellref = "nat \<times> nat"

definition cellAt :: "Grid \<Rightarrow> cellref \<Rightarrow> MazeCell option" where
  "cellAt g r = (case r of (i, j) \<Rightarrow>
     if i < length g \<and> j < length (g ! i) then Some (g ! i ! j) else None)"

definition updCell :: "(MazeCell \<Rightarrow> MazeCell) \<Rightarrow> cellref \<Rightarrow> Grid \<Rightarrow> Grid" where
  "updCell f r g = (case r of (i, j) \<Rightarrow> g[i := (g ! i)[j := f (g ! i ! j)]])"

section \<open>MazeGenerator\<close>

record MazeGenerator =
  width :: int
  height :: int
  grid :: Grid
  seed :: int
  random :: rng

definition newCell :: "nat \<Rightarrow> nat \<Rightarrow> MazeCell" where
  "newCell i j = \<lparr> cell_x = i, cell_z = j,
     walls = \<lparr> north = True, south = True, east = True, west = True \<rparr>,
     visited = False \<rparr>"

definition initializeGrid :: "int \<Rightarrow> int \<Rightarrow> Grid" where
  "initializeGrid w h = map (\<lambda>i. map (\<lambda>j. newCell i j) [0..<nat h]) [0..<nat w]"

text \<open>
  The constructor. \<open>sd\<close> is the optional argument (\<open>None\<close> when omitted) and \<open>drawn\<close>
  is the value \<open>Math.floor(Math.random() * 1000000)\<close> would produce in this call: the
  only input that comes from the environment. \<open>seed || ...\<close> takes the right operand
  when the seed is omitted or is \<open>0\<close> (seeds are integers here). No statement of the constructor throws, so the
  result is always \<open>Inr\<close>.
\<close>

definition MazeGenerator_constructor ::
  "int \<Rightarrow> int \<Rightarrow> int option \<Rightarrow> int \<Rightarrow> js_error + MazeGenerator" where
  "MazeGenerator_constructor w h sd drawn =
     (let s = (case sd of None \<Rightarrow> drawn | Some v \<Rightarrow> if v = 0 then drawn else v)
      in Inr \<lparr> width = w, height = h, grid = initializeGrid w h, seed = s,
               random = seededRandom s \<rparr>)"

text \<open>
  \<open>getNeighbors\<close>: candidates are pushed in the order west, east, north, south and
  then filtered by \<open>!neighbor.visited\<close>, which throws on an \<open>undefined\<close> entry.
\<close>

definition getNeighbors :: "MazeGenerator \<Rightarrow> cellref \<Rightarrow> js_error + cellref list" where
  "getNeighbors gen r =
     (case cellAt (grid gen) r of
        None \<Rightarrow> Inl TypeError
      | Some c \<Rightarrow>
          (let x = cell_x c; z = cell_z c;
               ns = (if x > 0 then [(x - 1, z)] else [])
                  @ (if int x < width gen - 1 then [(x + 1, z)] else [])
                  @ (if z > 0 then [(x, z - 1)] else [])
                  @ (if int z < height gen - 1 then [(x, z + 1)] else [])
           in if list_all (\<lambda>n. cellAt (grid gen) n \<noteq> None) ns
              then Inr (filter (\<lambda>n. \<not> visited (the (cellAt (grid gen) n))) ns)
              else Inl TypeError))"

definition setWalls :: "(Walls \<Rightarrow> Walls) \<Rightarrow> MazeCell \<Rightarrow> MazeCell" where
  "setWalls f c = c\<lparr> walls := f (walls c) \<rparr>"

text \<open>
  \<open>removeWall(current, neighbor)\<close> on two cell objects that are present in the grid.
\<close>

definition removeWall :: "cellref \<Rightarrow> cellref \<Rightarrow> Grid \<Rightarrow> Grid" where
  "removeWall cur nb g =
     (let c = the (cellAt g cur); n = the (cellAt g nb);
          dx = int (cell_x c) - int (cell_x n);
          dz = int (cell_z c) - int (cell_z n)
      in if dx = 1 then
           updCell (setWalls (\<lambda>ws. ws\<lparr> east := False \<rparr>)) nb
             (updCell (setWalls (\<lambda>ws. ws\<lparr> west := False \<rparr>)) cur g)
         else if dx = -1 then
           updCell (setWalls (\<lambda>ws. ws\<lparr> west := False \<rparr>)) nb
             (updCell (setWalls (\<lambda>ws. ws\<lparr> east := False \<rparr>)) cur g)
         else if dz = 1 then
           updCell (setWalls (\<lambda>ws. ws\<lparr> south := False \<rparr>)) nb
             (updCell (setWalls (\<lambda>ws. ws\<lparr> north := False \<rparr>)) cur g)
         else if dz = -1 then
           updCell (setWalls (\<lambda>ws. ws\<lparr> north := False \<rparr>)) nb
             (updCell (setWalls (\<lambda>ws. ws\<lparr> south := False \<rparr>)) cur g)
         else g)"

text \<open>
  The state of the \<open>while (true)\<close> loop of \<open>generate\<close>: the generator object, the
  backtrack stack (top first) and the current cell.
\<close>

record gen_state =
  gen :: MazeGenerator
  stack :: "cellref list"
  currentCell :: cellref

text \<open>
  One iteration of the loop body: \<open>Inr (Some st)\<close> goes round again with state \<open>st\<close>,
  \<open>Inr None\<close> is the \<open>break\<close>, \<open>Inl\<close> an exception. The index
  \<open>Math.floor(this.random() * neighbors.length)\<close> is exact in double arithmetic
  because the drawn value is a multiple of \<open>2^-32\<close> and the length is at most 4.
\<close>

definition loop_body :: "gen_state \<Rightarrow> js_error + gen_state option" where
  "loop_body st =
     (case getNeighbors (gen st) (currentCell st) of
        Inl e \<Rightarrow> Inl e
      | Inr neighbors \<Rightarrow>
          if length neighbors > 0 then
            (let (k, rnd) = randomIndex (random (gen st)) (length neighbors)
             in if k < length neighbors then
                  (let randomNeighbor = neighbors ! k;
                       g1 = removeWall (currentCell st) randomNeighbor (grid (gen st));
                       g2 = updCell (\<lambda>c. c\<lparr> visited := True \<rparr>) randomNeighbor g1
                   in Inr (Some \<lparr> gen = (gen st)\<lparr> grid := g2, random := rnd \<rparr>,
                                   stack = currentCell st # stack st,
                                   currentCell = randomNeighbor \<rparr>))
                else Inl TypeError)
          else if length (stack st) > 0 then
            Inr (Some (st\<lparr> stack := tl (stack st), currentCell := hd (stack st) \<rparr>))
          else Inr None)"

section \<open>Grid access and update; termination of the carve loop\<close>

lemma updCell_None: "cellAt g r = None \<Longrightarrow> updCell f r g = g"
  by (cases r) (auto simp: cellAt_def updCell_def list_update_beyond split: if_splits)

lemma length_updCell [simp]: "length (updCell f r g) = length g"
  by (cases r) (simp add: updCell_def)

lemma length_updCell_row [simp]: "length (updCell f r g ! i) = length (g ! i)"
proof (cases r)
  case (Pair a b)
  show ?thesis
  proof (cases "a < length g")
    case True
    then show ?thesis by (cases "i = a") (simp_all add: Pair updCell_def)
  next
    case False
    then show ?thesis by (simp add: Pair updCell_def list_update_beyond)
  qed
qed

lemma cellAt_updCell:
  "cellAt (updCell f r g) r' = (if r' = r then map_option f (cellAt g r) else cellAt g r')"
  by (cases r; cases r') (auto simp: cellAt_def updCell_def nth_list_update)

definition cnt :: "(MazeCell \<Rightarrow> bool) \<Rightarrow> Grid \<Rightarrow> nat" where
  "cnt P g = sum_list (map (\<lambda>row. length (filter P row)) g)"

lemma filter_update_count:
  "j < length row \<Longrightarrow>
   length (filter P (row[j := v])) + (if P (row ! j) then 1 else 0)
     = length (filter P row) + (if P v then 1 else 0)"
proof (induction row arbitrary: j)
  case Nil then show ?case by simp
next
  case (Cons a row)
  then show ?case by (cases j) auto
qed

lemma cnt_updCell_nth:
  assumes "i < length g" "j < length (g ! i)"
  shows "cnt P (updCell f (i, j) g) + (if P (g ! i ! j) then 1 else 0)
       = cnt P g + (if P (f (g ! i ! j)) then 1 else 0)"
  using assms
proof (induction g arbitrary: i)
  case Nil then show ?case by simp
next
  case (Cons row g)
  show ?case
  proof (cases i)
    case 0
    with Cons.prems filter_update_count[of j row P "f (row ! j)"] show ?thesis
      by (simp add: cnt_def updCell_def)
  next
    case (Suc i')
    with Cons.prems Cons.IH[of i'] show ?thesis
      by (simp add: cnt_def updCell_def)
  qed
qed

lemma cnt_updCell:
  "cellAt g r = Some c \<Longrightarrow>
   cnt P (updCell f r g) + (if P c then 1 else 0) = cnt P g + (if P (f c) then 1 else 0)"
  using cnt_updCell_nth[of "fst r" g "snd r" P f]
  by (cases r) (auto simp: cellAt_def split: if_splits)

lemma cnt_updCell_same:
  assumes "\<And>c. P (f c) = P c"
  shows "cnt P (updCell f r g) = cnt P g"
proof (cases "cellAt g r")
  case None then show ?thesis by (simp add: updCell_None)
next
  case (Some c)
  from cnt_updCell[OF Some, of P f] assms show ?thesis by simp
qed

lemma visited_setWalls [simp]: "visited (setWalls f c) = visited c"
  by (simp add: setWalls_def)

lemma cnt_removeWall: "cnt (\<lambda>c. \<not> visited c) (removeWall a b g) = cnt (\<lambda>c. \<not> visited c) g"
  by (simp add: removeWall_def Let_def cnt_updCell_same)

lemma cellAt_removeWall_visited:
  "map_option visited (cellAt (removeWall a b g) r) = map_option visited (cellAt g r)"
  by (cases "cellAt g r") (auto simp: removeWall_def Let_def cellAt_updCell)

lemma getNeighbors_mem:
  "getNeighbors gn r = Inr ns \<Longrightarrow> n \<in> set ns \<Longrightarrow>
   \<exists>c. cellAt (grid gn) n = Some c \<and> \<not> visited c"
  by (auto simp: getNeighbors_def Let_def list_all_iff split: option.splits if_splits)

lemma loop_body_decreases:
  assumes "loop_body st = Inr (Some st')"
  shows "cnt (\<lambda>c. \<not> visited c) (grid (gen st')) < cnt (\<lambda>c. \<not> visited c) (grid (gen st))
       \<or> (cnt (\<lambda>c. \<not> visited c) (grid (gen st')) = cnt (\<lambda>c. \<not> visited c) (grid (gen st))
          \<and> length (stack st') < length (stack st))"
proof -
  from assms obtain ns where ns: "getNeighbors (gen st) (currentCell st) = Inr ns"
    by (auto simp: loop_body_def split: sum.splits)
  show ?thesis
  proof (cases "ns = []")
    case True
    with assms ns show ?thesis
      by (auto simp: loop_body_def split: if_splits)
  next
    case False
    obtain k rnd where kr: "randomIndex (random (gen st)) (length ns) = (k, rnd)"
      by (cases "randomIndex (random (gen st)) (length ns)")
    with assms ns False have k: "k < length ns"
      and st': "grid (gen st') = updCell (\<lambda>c. c\<lparr> visited := True \<rparr>) (ns ! k)
                  (removeWall (currentCell st) (ns ! k) (grid (gen st)))"
      by (auto simp: loop_body_def Let_def split: if_splits)
    from k have "ns ! k \<in> set ns" by simp
    from getNeighbors_mem[OF ns this] obtain c where
      c: "cellAt (grid (gen st)) (ns ! k) = Some c" "\<not> visited c" by blast
    from cellAt_removeWall_visited[of "currentCell st" "ns ! k" "grid (gen st)" "ns ! k"] c
    obtain c' where c': "cellAt (removeWall (currentCell st) (ns ! k) (grid (gen st))) (ns ! k) = Some c'"
        "\<not> visited c'"
      by (cases "cellAt (removeWall (currentCell st) (ns ! k) (grid (gen st))) (ns ! k)") auto
    from cnt_updCell[OF c'(1), of "\<lambda>c. \<not> visited c" "\<lambda>c. c\<lparr> visited := True \<rparr>"] c'(2)
    show ?thesis by (simp add: st' cnt_removeWall)
  qed
qed

function generate_loop :: "gen_state \<Rightarrow> js_error + MazeGenerator" where
  "generate_loop st =
     (case loop_body st of
        Inl e \<Rightarrow> Inl e
      | Inr None \<Rightarrow> Inr (gen st)
      | Inr (Some st') \<Rightarrow> generate_loop st')"
  by pat_completeness auto

termination generate_loop
proof (relation "measures [\<lambda>st. cnt (\<lambda>c. \<not> visited c) (grid (gen st)), \<lambda>st. length (stack st)]")
  show "wf (measures [\<lambda>st. cnt (\<lambda>c. \<not> visited c) (grid (gen st)), \<lambda>st. length (stack st)])"
    by simp
next
  fix st x2 x2a
  assume "loop_body st = Inr x2" "x2 = Some x2a"
  then have "loop_body st = Inr (Some x2a)" by simp
  from loop_body_decreases[OF this]
  show "(x2a, st) \<in> measures [\<lambda>st. cnt (\<lambda>c. \<not> visited c) (grid (gen st)), \<lambda>st. length (stack st)]"
    by auto
qed

section \<open>generate and getStartPosition\<close>

text \<open>
  \<open>generate\<close>: the start cell \<open>grid[0][0]\<close> is marked visited (a TypeError when it is
  missing), then the loop runs from the empty stack.
\<close>

definition generate_start :: "MazeGenerator \<Rightarrow> gen_state" where
  "generate_start gn =
     \<lparr> gen = gn\<lparr> grid := updCell (\<lambda>c. c\<lparr> visited := True \<rparr>) (0, 0) (grid gn) \<rparr>,
       stack = [], currentCell = (0, 0) \<rparr>"

definition generate :: "MazeGenerator \<Rightarrow> js_error + MazeGenerator" where
  "generate gn =
     (case cellAt (grid gn) (0, 0) of
        None \<Rightarrow> Inl TypeError
      | Some c \<Rightarrow> generate_loop (generate_start gn))"

text \<open>
  The states the loop passes through: \<open>loop_steps a b\<close> when \<open>b\<close> is reached from \<open>a\<close>
  by rounds of the loop body; \<open>during_generate gn st\<close> when \<open>st\<close> is a state at the head
  of the loop in the call \<open>generate()\<close> on \<open>gn\<close>.
\<close>

definition loop_steps :: "gen_state \<Rightarrow> gen_state \<Rightarrow> bool" where
  "loop_steps = (\<lambda>a b. loop_body a = Inr (Some b))\<^sup>*\<^sup>*"

definition during_generate :: "MazeGenerator \<Rightarrow> gen_state \<Rightarrow> bool" where
  "during_generate gn st = (cellAt (grid gn) (0, 0) \<noteq> None \<and> loop_steps (generate_start gn) st)"

text \<open>
  \<open>getStartPosition\<close>. The scan visits the interior cells, \<open>x\<close> from 1 to \<open>width - 2\<close>
  and inside it \<open>z\<close> from 1 to \<open>height - 2\<close>; a cell with at most two walls becomes a
  candidate with the world coordinates \<open>x * 4 + 2\<close>, \<open>z * 4 + 2\<close>. The candidates are
  sorted by wall count (the sort of an array is stable), those with the count of the
  first one are kept and one of them is drawn with the generator's stream. Without
  candidates the result is the fixed point (2, 2). The result carries the generator
  with its advanced stream.
\<close>

record candidate =
  cand_x :: nat
  cand_z :: nat
  wallCount :: nat

definition wallCountOf :: "MazeCell \<Rightarrow> nat" where
  "wallCountOf c =
     length (filter id [north (walls c), south (walls c), east (walls c), west (walls c)])"

definition interiorRefs :: "int \<Rightarrow> int \<Rightarrow> cellref list" where
  "interiorRefs w h = concat (map (\<lambda>x. map (\<lambda>z. (x, z)) [1..<nat (h - 1)]) [1..<nat (w - 1)])"

definition getStartPosition :: "MazeGenerator \<Rightarrow> js_error + ((nat \<times> nat) \<times> MazeGenerator)" where
  "getStartPosition gn =
     (let refs = interiorRefs (width gn) (height gn) in
      if \<not> list_all (\<lambda>r. cellAt (grid gn) r \<noteq> None) refs then Inl TypeError
      else
        (let candidates =
               map (\<lambda>r. \<lparr> cand_x = fst r * 4 + 2, cand_z = snd r * 4 + 2,
                           wallCount = wallCountOf (the (cellAt (grid gn) r)) \<rparr>)
                 (filter (\<lambda>r. wallCountOf (the (cellAt (grid gn) r)) \<le> 2) refs)
         in if length candidates > 0 then
              (let sorted = sort_key wallCount candidates;
                   topCandidates = filter (\<lambda>c. wallCount c = wallCount (hd sorted)) sorted;
                   (k, rnd) = randomIndex (random gn) (length topCandidates)
               in if k < length topCandidates
                  then Inr ((cand_x (topCandidates ! k), cand_z (topCandidates ! k)),
                            gn\<lparr> random := rnd \<rparr>)
                  else Inl TypeError)
            else Inr ((2, 2), gn)))"

text \<open>
  The way the application uses a generator: construct it, call \<open>generate()\<close>, then
  \<open>getStartPosition()\<close>; the result is the grid and the start position.
\<close>

definition generateAndStart ::
  "int \<Rightarrow> int \<Rightarrow> int option \<Rightarrow> int \<Rightarrow> js_error + (Grid \<times> (nat \<times> nat))" where
  "generateAndStart w h sd drawn =
     (case MazeGenerator_constructor w h sd drawn of
        Inl e \<Rightarrow> Inl e
      | Inr g0 \<Rightarrow>
          (case generate g0 of
             Inl e \<Rightarrow> Inl e
           | Inr gn \<Rightarrow>
               (case getStartPosition gn of
                  Inl e \<Rightarrow> Inl e
                | Inr (p, gn') \<Rightarrow> Inr (grid gn', p))))"

section \<open>FirstPersonController: collision and movement\<close>

text \<open>
  Positions are \<open>Vector3\<close> values. The coordinates are JavaScript numbers; they are
  modelled as real numbers, so rounding of the double arithmetic is not part of the
  model, and a cell size of 0 (where the division gives an infinity or NaN) is outside
  it.
\<close>

record Vector3 =
  vx :: real
  vy :: real
  vz :: real

text \<open>
  \<open>checkCollision\<close> (the two versions of the controller carry the same text). The
  boundary test short-circuits, so \<open>maze[0]\<close> is read only for a non-empty grid; a cell
  that is missing at \<open>maze[mazeX][mazeZ]\<close> makes the read of \<open>cell.walls\<close> throw.
\<close>

definition checkCollision :: "Grid \<Rightarrow> real \<Rightarrow> Vector3 \<Rightarrow> js_error + bool" where
  "checkCollision maze cellSize newPosition =
     (let mazeX = \<lfloor>vx newPosition / cellSize\<rfloor>;
          mazeZ = \<lfloor>vz newPosition / cellSize\<rfloor>
      in if mazeX < 0 \<or> mazeX \<ge> int (length maze) \<or> mazeZ < 0 \<or> mazeZ \<ge> int (length (maze ! 0))
         then Inr True
         else
           (case cellAt maze (nat mazeX, nat mazeZ) of
              None \<Rightarrow> Inl TypeError
            | Some cell \<Rightarrow>
                (let localX = vx newPosition - real_of_int mazeX * cellSize;
                     localZ = vz newPosition - real_of_int mazeZ * cellSize;
                     buffer = 0.3
                 in if north (walls cell) \<and> localZ < buffer then Inr True
                    else if south (walls cell) \<and> localZ > cellSize - buffer then Inr True
                    else if west (walls cell) \<and> localX < buffer then Inr True
                    else if east (walls cell) \<and> localX > cellSize - buffer then Inr True
                    else Inr False)))"

text \<open>
  The per-axis commit at the end of the frame callback. The result is the new value of
  \<open>currentPosition.current\<close> and the exception, if one was thrown: an exception in the
  Z test leaves an accepted X move in place.
\<close>

definition resolveMove :: "Grid \<Rightarrow> real \<Rightarrow> Vector3 \<Rightarrow> Vector3 \<Rightarrow> Vector3 \<times> js_error option" where
  "resolveMove maze cellSize cur velocity =
     (let newPosition = \<lparr> vx = vx cur + vx velocity, vy = vy cur + vy velocity,
                          vz = vz cur + vz velocity \<rparr>;
          testPositionX = cur\<lparr> vx := vx newPosition \<rparr>
      in case checkCollision maze cellSize testPositionX of
           Inl e \<Rightarrow> (cur, Some e)
         | Inr hitX \<Rightarrow>
             (let cur1 = (if \<not> hitX then cur\<lparr> vx := vx newPosition \<rparr> else cur);
                  testPositionZ = cur1\<lparr> vz := vz newPosition \<rparr>
              in case checkCollision maze cellSize testPositionZ of
                   Inl e \<Rightarrow> (cur1, Some e)
                 | Inr hitZ \<Rightarrow>
                     (if \<not> hitZ then cur1\<lparr> vz := vz newPosition \<rparr> else cur1, None)))"

text \<open>
  The movement part of the frame callback. \<open>doorAhead\<close> is the outcome of the ray test
  (a door object closer than 1.0 along the view direction), which is made only for a
  non-zero velocity and ends the callback before any movement.
\<close>

definition useFrame_move ::
  "Grid \<Rightarrow> real \<Rightarrow> Vector3 \<Rightarrow> Vector3 \<Rightarrow> bool \<Rightarrow> Vector3 \<times> js_error option" where
  "useFrame_move maze cellSize cur velocity doorAhead =
     (if (vx velocity \<noteq> 0 \<or> vy velocity \<noteq> 0 \<or> vz velocity \<noteq> 0) \<and> doorAhead
      then (cur, None)
      else resolveMove maze cellSize cur velocity)"

section \<open>Door placement: the scene builder and the debug view\<close>

datatype direction = North | South | East | West

fun wallIn :: "direction \<Rightarrow> Walls \<Rightarrow> bool" where
  "wallIn North ws = north ws"
| "wallIn South ws = south ws"
| "wallIn East ws = east ws"
| "wallIn West ws = west ws"

text \<open>\<open>array.forEach((element, index) => ...)\<close> with the state the callback updates.\<close>

fun forEach :: "(nat \<Rightarrow> 'a \<Rightarrow> 's \<Rightarrow> 's) \<Rightarrow> nat \<Rightarrow> 'a list \<Rightarrow> 's \<Rightarrow> 's" where
  "forEach f i [] s = s"
| "forEach f i (a # as) s = forEach f (Suc i) as (f i a s)"

text \<open>
  The elements the scene builder pushes, by their keys: a wall without a door is one
  mesh \<open>wall-dir-x-z\<close>; a wall with a door is the three frame meshes \<open>wall-dir-left-x-z\<close>,
  \<open>wall-dir-right-x-z\<close>, \<open>wall-dir-top-x-z\<close> and the mesh \<open>door-dir-x-z\<close>, the only one
  whose \<open>userData\<close> has \<open>isDoor\<close>. Positions and sizes of the meshes are left out.
\<close>

datatype meshKind = WallFull | WallLeft | WallRight | WallTop | DoorMesh

datatype mesh = Mesh meshKind direction nat nat

type_synonym doorKey = "nat \<times> nat \<times> direction"

definition maze3d_wall :: "direction \<Rightarrow> nat \<Rightarrow> nat \<Rightarrow> mesh list \<times> rng \<Rightarrow> mesh list \<times> rng" where
  "maze3d_wall d x z st =
     (case st of (wallElements, r) \<Rightarrow>
        (case randomBelowTenth r of (hasDoor, r') \<Rightarrow>
           (if hasDoor
            then wallElements @ [Mesh WallLeft d x z, Mesh WallRight d x z, Mesh WallTop d x z,
                                 Mesh DoorMesh d x z]
            else wallElements @ [Mesh WallFull d x z], r')))"

definition maze3d_cell :: "nat \<Rightarrow> nat \<Rightarrow> MazeCell \<Rightarrow> mesh list \<times> rng \<Rightarrow> mesh list \<times> rng" where
  "maze3d_cell x z cell st =
     (let st1 = (if north (walls cell) then maze3d_wall North x z st else st);
          st2 = (if south (walls cell) then maze3d_wall South x z st1 else st1);
          st3 = (if east (walls cell) then maze3d_wall East x z st2 else st2);
          st4 = (if west (walls cell) then maze3d_wall West x z st3 else st3)
      in st4)"

definition maze3d_walls :: "Grid \<Rightarrow> int \<Rightarrow> mesh list" where
  "maze3d_walls maze sd =
     fst (forEach (\<lambda>x row. forEach (\<lambda>z cell. maze3d_cell x z cell) 0 row) 0 maze
            ([], seededRandom sd))"

definition sceneDoors :: "mesh list \<Rightarrow> doorKey set" where
  "sceneDoors wallElements = {(x, z, d). Mesh DoorMesh d x z \<in> set wallElements}"

text \<open>
  The debug view: \<open>doorMap\<close> is a \<open>Set\<close> of the keys \<open>x,z,dir\<close>, kept here in insertion
  order.
\<close>

definition doorMap_add :: "doorKey \<Rightarrow> doorKey list \<Rightarrow> doorKey list" where
  "doorMap_add k doorMap = (if k \<in> set doorMap then doorMap else doorMap @ [k])"

definition ascii_wall :: "direction \<Rightarrow> nat \<Rightarrow> nat \<Rightarrow> doorKey list \<times> rng \<Rightarrow> doorKey list \<times> rng" where
  "ascii_wall d x z st =
     (case st of (doorMap, r) \<Rightarrow>
        (case randomBelowTenth r of (hasDoor, r') \<Rightarrow>
           (if hasDoor then doorMap_add (x, z, d) doorMap else doorMap, r')))"

definition ascii_cell :: "nat \<Rightarrow> nat \<Rightarrow> MazeCell \<Rightarrow> doorKey list \<times> rng \<Rightarrow> doorKey list \<times> rng" where
  "ascii_cell x z cell st =
     (let st1 = (if north (walls cell) then ascii_wall North x z st else st);
          st2 = (if south (walls cell) then ascii_wall South x z st1 else st1);
          st3 = (if east (walls cell) then ascii_wall East x z st2 else st2);
          st4 = (if west (walls cell) then ascii_wall West x z st3 else st3)
      in st4)"

definition printMazeASCII_doorMap :: "Grid \<Rightarrow> int \<Rightarrow> doorKey list" where
  "printMazeASCII_doorMap maze sd =
     fst (forEach (\<lambda>x row. forEach (\<lambda>z cell. ascii_cell x z cell) 0 row) 0 maze
            ([], seededRandom sd))"

section \<open>Definitions for the properties\<close>

text \<open>
  The neighbour of a cell in a direction (north is towards smaller \<open>z\<close>, west towards
  smaller \<open>x\<close>, as in \<open>getNeighbors\<close> and \<open>removeWall\<close>), the opposite direction and the
  clearing of one wall flag.
\<close>

fun clearWall :: "direction \<Rightarrow> Walls \<Rightarrow> Walls" where
  "clearWall North ws = ws\<lparr> north := False \<rparr>"
| "clearWall South ws = ws\<lparr> south := False \<rparr>"
| "clearWall East ws = ws\<lparr> east := False \<rparr>"
| "clearWall West ws = ws\<lparr> west := False \<rparr>"

fun opposite :: "direction \<Rightarrow> direction" where
  "opposite North = South"
| "opposite South = North"
| "opposite East = West"
| "opposite West = East"

fun nbr :: "direction \<Rightarrow> cellref \<Rightarrow> cellref option" where
  "nbr West (i, j) = (if i > 0 then Some (i - 1, j) else None)"
| "nbr East (i, j) = Some (i + 1, j)"
| "nbr North (i, j) = (if j > 0 then Some (i, j - 1) else None)"
| "nbr South (i, j) = Some (i, j + 1)"

text \<open>
  There is a passage from a cell to a neighbour when both cells are in the grid and the
  wall between them is open on both sides. A grid is connected when every cell is
  reachable from every other cell through passages.
\<close>

definition passage :: "Grid \<Rightarrow> cellref \<Rightarrow> cellref \<Rightarrow> bool" where
  "passage g a b =
     (\<exists>d ca cb. nbr d a = Some b \<and> cellAt g a = Some ca \<and> cellAt g b = Some cb \<and>
        \<not> wallIn d (walls ca) \<and> \<not> wallIn (opposite d) (walls cb))"

definition reachable :: "Grid \<Rightarrow> cellref \<Rightarrow> cellref \<Rightarrow> bool" where
  "reachable g = (passage g)\<^sup>*\<^sup>*"

definition connected :: "Grid \<Rightarrow> bool" where
  "connected g = (\<forall>a b. cellAt g a \<noteq> None \<and> cellAt g b \<noteq> None \<longrightarrow> reachable g a b)"

text \<open>
  Wall symmetry: for every pair of neighbouring cells of the grid and every direction,
  the wall of the first towards the second is present exactly when the wall of the
  second towards the first is.
\<close>

definition wallsSymmetric :: "Grid \<Rightarrow> bool" where
  "wallsSymmetric g =
     (\<forall>a b d ca cb. nbr d a = Some b \<and> cellAt g a = Some ca \<and> cellAt g b = Some cb \<longrightarrow>
        wallIn d (walls ca) = wallIn (opposite d) (walls cb))"

text \<open>
  The number of walls removed: each call of \<open>removeWall\<close> clears the east flag of the
  western cell or the south flag of the northern cell of the pair, so the removed walls
  are counted by the cleared east and south flags.
\<close>

definition removedWalls :: "Grid \<Rightarrow> nat" where
  "removedWalls g = cnt (\<lambda>c. \<not> east (walls c)) g + cnt (\<lambda>c. \<not> south (walls c)) g"

text \<open>
  A grid of \<open>W\<close> columns of \<open>H\<close> cells each, whose cells carry their own indices.
\<close>

definition wf_grid :: "nat \<Rightarrow> nat \<Rightarrow> Grid \<Rightarrow> bool" where
  "wf_grid W H g =
     (length g = W \<and> (\<forall>i<W. length (g ! i) = H) \<and>
      (\<forall>r c. cellAt g r = Some c \<longrightarrow> cell_x c = fst r \<and> cell_z c = snd r))"

text \<open>
  The invariant of the loop of \<open>generate\<close>: the current cell and the cells of the stack
  are visited; unvisited cells have all their walls; the walls are symmetric; every
  visited cell is reachable from the start cell; the number of removed walls is one
  less than the number of visited cells; and a visited cell that is neither current
  nor on the stack has only visited neighbours. \<open>carved\<close> is the grid after one carve
  step in a direction.
\<close>

definition vis :: "Grid \<Rightarrow> cellref \<Rightarrow> bool" where
  "vis g r = (\<exists>c. cellAt g r = Some c \<and> visited c)"

definition carved :: "direction \<Rightarrow> cellref \<Rightarrow> cellref \<Rightarrow> Grid \<Rightarrow> Grid" where
  "carved d cur nb g =
     updCell (\<lambda>c. c\<lparr> visited := True \<rparr>) nb
       (updCell (setWalls (clearWall (opposite d))) nb
         (updCell (setWalls (clearWall d)) cur g))"

definition dfs_inv :: "nat \<Rightarrow> nat \<Rightarrow> gen_state \<Rightarrow> bool" where
  "dfs_inv W H st =
     (width (gen st) = int W \<and> height (gen st) = int H \<and>
      wf_grid W H (grid (gen st)) \<and>
      vis (grid (gen st)) (currentCell st) \<and>
      (\<forall>r \<in> set (stack st). vis (grid (gen st)) r) \<and>
      vis (grid (gen st)) (0, 0) \<and>
      (\<forall>r c d. cellAt (grid (gen st)) r = Some c \<and> \<not> visited c \<longrightarrow> wallIn d (walls c)) \<and>
      wallsSymmetric (grid (gen st)) \<and>
      (\<forall>r. vis (grid (gen st)) r \<longrightarrow> reachable (grid (gen st)) (0, 0) r) \<and>
      removedWalls (grid (gen st)) + 1 = cnt visited (grid (gen st)) \<and>
      (\<forall>r n d. vis (grid (gen st)) r \<and> r \<noteq> currentCell st \<and> r \<notin> set (stack st) \<and>
          nbr d r = Some n \<and> cellAt (grid (gen st)) n \<noteq> None \<longrightarrow> vis (grid (gen st)) n))"

text \<open>
  The wall count of the cell at a place of the generator's grid, and the interior cells
  of least wall count in scan order.
\<close>

definition wallsAt :: "MazeGenerator \<Rightarrow> cellref \<Rightarrow> nat" where
  "wallsAt gn r = wallCountOf (the (cellAt (grid gn) r))"

definition mostOpen :: "MazeGenerator \<Rightarrow> cellref list" where
  "mostOpen gn =
     filter (\<lambda>r. \<forall>r' \<in> set (interiorRefs (width gn) (height gn)). wallsAt gn r \<le> wallsAt gn r')
       (interiorRefs (width gn) (height gn))"

text \<open>
  A 5 by 5 grid for the scenarios: all walls present, except that cell (2, 2) has the
  walls north and east only.
\<close>

definition scenarioMaze :: Grid where
  "scenarioMaze =
     updCell (setWalls (\<lambda>ws. \<lparr> north = True, south = False, east = True, west = False \<rparr>)) (2, 2)
       (initializeGrid 5 5)"

text \<open>The cell a position maps to, and the offsets inside it.\<close>

definition mazeCoord :: "real \<Rightarrow> real \<Rightarrow> int" where
  "mazeCoord cellSize v = \<lfloor>v / cellSize\<rfloor>"

definition localOffset :: "real \<Rightarrow> real \<Rightarrow> real" where
  "localOffset cellSize v = v - real_of_int (mazeCoord cellSize v) * cellSize"

definition inBounds :: "Grid \<Rightarrow> real \<Rightarrow> Vector3 \<Rightarrow> bool" where
  "inBounds maze cellSize p =
     (0 \<le> mazeCoord cellSize (vx p) \<and> mazeCoord cellSize (vx p) < int (length maze) \<and>
      0 \<le> mazeCoord cellSize (vz p) \<and> mazeCoord cellSize (vz p) < int (length (maze ! 0)))"

definition cellOf :: "Grid \<Rightarrow> real \<Rightarrow> Vector3 \<Rightarrow> MazeCell option" where
  "cellOf maze cellSize p =
     cellAt maze (nat (mazeCoord cellSize (vx p)), nat (mazeCoord cellSize (vz p)))"

text \<open>The distance from a local offset to the edge of the cell in a direction.\<close>

fun wallDistance :: "direction \<Rightarrow> real \<Rightarrow> real \<Rightarrow> real \<Rightarrow> real" where
  "wallDistance North cellSize lx lz = lz"
| "wallDistance South cellSize lx lz = cellSize - lz"
| "wallDistance West cellSize lx lz = lx"
| "wallDistance East cellSize lx lz = cellSize - lx"

definition nearWall :: "MazeCell \<Rightarrow> real \<Rightarrow> Vector3 \<Rightarrow> bool" where
  "nearWall c cellSize p =
     (\<exists>d. wallIn d (walls c) \<and>
          wallDistance d cellSize (localOffset cellSize (vx p)) (localOffset cellSize (vz p)) < 0.3)"

text \<open>
  A grid all of whose columns have the length of the first.
\<close>

definition rectangular :: "Grid \<Rightarrow> bool" where
  "rectangular maze = list_all (\<lambda>row. length row = length (maze ! 0)) maze"

text \<open>
  The door placement function in the words of the specification: a fresh generator
  from the seed; the grid in the order x ascending, then z ascending; in each cell the
  walls north, south, east, west; one draw for each wall that is present, which bears
  a door when the drawn value is below the threshold.
\<close>

definition spec_presentWalls :: "Grid \<Rightarrow> doorKey list" where
  "spec_presentWalls g =
     concat (map (\<lambda>(x, row).
               concat (map (\<lambda>(z, cell).
                         filter (\<lambda>(x, z, d). wallIn d (walls cell))
                           [(x, z, North), (x, z, South), (x, z, East), (x, z, West)])
                       (enumerate 0 row)))
             (enumerate 0 g))"

fun spec_drawDoors :: "real \<Rightarrow> rng \<Rightarrow> doorKey list \<Rightarrow> doorKey list" where
  "spec_drawDoors threshold r [] = []"
| "spec_drawDoors threshold r (w # ws) =
     (case rng_next r of (v, r') \<Rightarrow>
        (if v < threshold then [w] else []) @ spec_drawDoors threshold r' ws)"

definition spec_computeDoors :: "Grid \<Rightarrow> int \<Rightarrow> doorKey set" where
  "spec_computeDoors g sd = set (spec_drawDoors 0.10 (seededRandom sd) (spec_presentWalls g))"

text \<open>Draws over a list of walls, with the update of a consumer's accumulator.\<close>

fun drawEach :: "(doorKey \<Rightarrow> bool \<Rightarrow> 'acc \<Rightarrow> 'acc) \<Rightarrow> doorKey list \<Rightarrow> 'acc \<times> rng \<Rightarrow> 'acc \<times> rng" where
  "drawEach g [] st = st"
| "drawEach g (w # ws) st =
     (case st of (acc, r) \<Rightarrow>
        (case randomBelowTenth r of (hasDoor, r') \<Rightarrow> drawEach g ws (g w hasDoor acc, r')))"

definition cellWalls :: "nat \<Rightarrow> nat \<Rightarrow> MazeCell \<Rightarrow> doorKey list" where
  "cellWalls x z cell =
     filter (\<lambda>(x, z, d). wallIn d (walls cell))
       [(x, z, North), (x, z, South), (x, z, East), (x, z, West)]"

definition sceneStep :: "doorKey \<Rightarrow> bool \<Rightarrow> mesh list \<Rightarrow> mesh list" where
  "sceneStep k hasDoor wallElements =
     (case k of (x, z, d) \<Rightarrow>
        if hasDoor
        then wallElements @ [Mesh WallLeft d x z, Mesh WallRight d x z, Mesh WallTop d x z,
                             Mesh DoorMesh d x z]
        else wallElements @ [Mesh WallFull d x z])"

definition asciiStep :: "doorKey \<Rightarrow> bool \<Rightarrow> doorKey list \<Rightarrow> doorKey list" where
  "asciiStep k hasDoor doorMap = (if hasDoor then doorMap_add k doorMap else doorMap)"

section \<open>The random index\<close>

lemma randomIndex_code [code]:
  "randomIndex r n = (nat (rng_result (rng_step r) * int n div 4294967296), rng_step r)"
proof -
  have "\<lfloor>real_of_int (rng_result (rng_step r)) / 4294967296 * real n\<rfloor>
      = rng_result (rng_step r) * int n div 4294967296"
  proof -
    have "real_of_int (rng_result (rng_step r)) / 4294967296 * real n
        = real_of_int (rng_result (rng_step r) * int n) / real_of_int 4294967296"
      by simp
    then show ?thesis by (simp only: floor_divide_of_int_eq)
  qed
  then show ?thesis by (simp add: randomIndex_def rng_next_def)
qed

section \<open>Directions, passages and well-formed grids\<close>

lemma nbr_opposite: "nbr d a = Some b \<Longrightarrow> nbr (opposite d) b = Some a"
  by (cases d; cases a) (auto split: if_splits)

lemma opposite_opposite [simp]: "opposite (opposite d) = d"
  by (cases d) auto

lemma nbr_neq: "nbr d a = Some b \<Longrightarrow> a \<noteq> b"
  by (cases d; cases a) (auto split: if_splits)

lemma nbr_inj: "nbr d a = Some b \<Longrightarrow> nbr d' a = Some b \<Longrightarrow> d = d'"
  by (cases d; cases d'; cases a) (auto split: if_splits)

lemma wallIn_clearWall [simp]: "wallIn d' (clearWall d ws) = (d' \<noteq> d \<and> wallIn d' ws)"
  by (cases d; cases d') auto

lemma passage_sym: "passage g a b \<Longrightarrow> passage g b a"
proof -
  assume "passage g a b"
  then obtain d ca cb where h: "nbr d a = Some b" "cellAt g a = Some ca" "cellAt g b = Some cb"
      "\<not> wallIn d (walls ca)" "\<not> wallIn (opposite d) (walls cb)"
    unfolding passage_def by blast
  from nbr_opposite[OF h(1)] h(2-5) show "passage g b a"
    unfolding passage_def by (intro exI[of _ "opposite d"] exI[of _ cb] exI[of _ ca]) simp
qed

lemma reachable_sym:
  assumes "reachable g a b"
  shows "reachable g b a"
proof -
  have "(passage g)\<^sup>*\<^sup>* a b" using assms by (simp add: reachable_def)
  then have "(passage g)\<^sup>*\<^sup>* b a"
  proof (induction rule: rtranclp_induct)
    case base
    show ?case by simp
  next
    case (step y z)
    from passage_sym[OF step.hyps(2)] have "passage g z y" .
    then show ?case using step.IH by (rule converse_rtranclp_into_rtranclp)
  qed
  then show ?thesis by (simp add: reachable_def)
qed

lemma reachable_trans: "reachable g a b \<Longrightarrow> reachable g b c \<Longrightarrow> reachable g a c"
  unfolding reachable_def by (rule rtranclp_trans)

lemma wf_cellAt:
  assumes "wf_grid W H g"
  shows "(cellAt g (i, j) \<noteq> None) = (i < W \<and> j < H)"
proof -
  from assms have "length g = W" "\<forall>i<W. length (g ! i) = H"
    by (simp_all add: wf_grid_def)
  then show ?thesis by (auto simp: cellAt_def)
qed

lemma wf_cellAt_fields:
  "wf_grid W H g \<Longrightarrow> cellAt g r = Some c \<Longrightarrow> cell_x c = fst r \<and> cell_z c = snd r"
  unfolding wf_grid_def by blast

lemma wf_updCell:
  assumes "wf_grid W H g" "\<And>c. cell_x (f c) = cell_x c" "\<And>c. cell_z (f c) = cell_z c"
  shows "wf_grid W H (updCell f r g)"
proof -
  have "\<And>r' c. cellAt (updCell f r g) r' = Some c \<Longrightarrow> cell_x c = fst r' \<and> cell_z c = snd r'"
  proof -
    fix r' c assume a: "cellAt (updCell f r g) r' = Some c"
    show "cell_x c = fst r' \<and> cell_z c = snd r'"
    proof (cases "r' = r")
      case True
      with a obtain c0 where "cellAt g r = Some c0" "c = f c0"
        by (auto simp: cellAt_updCell)
      with wf_cellAt_fields[OF assms(1), of r c0] assms(2,3) True show ?thesis by simp
    next
      case False
      with a have "cellAt g r' = Some c" by (simp add: cellAt_updCell)
      with wf_cellAt_fields[OF assms(1)] show ?thesis by simp
    qed
  qed
  with assms(1) show ?thesis unfolding wf_grid_def by simp
qed

lemma cnt_all:
  assumes "wf_grid W H g" "\<And>r c. cellAt g r = Some c \<Longrightarrow> P c"
  shows "cnt P g = W * H"
proof -
  have "map (\<lambda>row. length (filter P row)) g = replicate W H"
  proof (rule nth_equalityI)
    show "length (map (\<lambda>row. length (filter P row)) g) = length (replicate W H)"
      using assms(1) by (simp add: wf_grid_def)
  next
    fix i assume "i < length (map (\<lambda>row. length (filter P row)) g)"
    then have i: "i < W" "i < length g" using assms(1) by (simp_all add: wf_grid_def)
    then have len: "length (g ! i) = H" using assms(1) by (simp add: wf_grid_def)
    have "\<forall>c \<in> set (g ! i). P c"
    proof
      fix c assume "c \<in> set (g ! i)"
      then obtain j where "j < length (g ! i)" "c = g ! i ! j" by (auto simp: in_set_conv_nth)
      with i have "cellAt g (i, j) = Some c" by (simp add: cellAt_def)
      then show "P c" by (rule assms(2))
    qed
    then have "filter P (g ! i) = g ! i" by simp
    with i len show "map (\<lambda>row. length (filter P row)) g ! i = replicate W H ! i" by simp
  qed
  then show ?thesis by (simp add: cnt_def sum_list_replicate)
qed

lemma cnt_none:
  assumes "\<And>r c. cellAt g r = Some c \<Longrightarrow> \<not> P c"
  shows "cnt P g = 0"
proof -
  have "\<forall>row \<in> set g. filter P row = []"
  proof
    fix row assume "row \<in> set g"
    then obtain i where i: "i < length g" "row = g ! i" by (auto simp: in_set_conv_nth)
    have "\<forall>c \<in> set row. \<not> P c"
    proof
      fix c assume "c \<in> set row"
      then obtain j where "j < length row" "c = row ! j" by (auto simp: in_set_conv_nth)
      with i have "cellAt g (i, j) = Some c" by (simp add: cellAt_def)
      then show "\<not> P c" by (rule assms)
    qed
    then show "filter P row = []" by simp
  qed
  then show ?thesis by (simp add: cnt_def)
qed

section \<open>The carve step\<close>

lemma nbr_inj_src: "nbr d a = Some b \<Longrightarrow> nbr d a' = Some b \<Longrightarrow> a = a'"
  by (cases d; cases a; cases a') (auto split: if_splits)

lemma clearWall_simps':
  "(\<lambda>ws. ws\<lparr> north := False \<rparr>) = clearWall North"
  "(\<lambda>ws. ws\<lparr> south := False \<rparr>) = clearWall South"
  "(\<lambda>ws. ws\<lparr> east := False \<rparr>) = clearWall East"
  "(\<lambda>ws. ws\<lparr> west := False \<rparr>) = clearWall West"
  by (simp_all add: fun_eq_iff)

lemma removeWall_dir:
  assumes wf: "wf_grid W H g" and n: "nbr d cur = Some nb"
    and c: "cellAt g cur = Some cc" and b: "cellAt g nb = Some cn"
  shows "removeWall cur nb g =
         updCell (setWalls (clearWall (opposite d))) nb (updCell (setWalls (clearWall d)) cur g)"
proof -
  obtain i j where cur: "cur = (i, j)" by (cases cur)
  from wf_cellAt_fields[OF wf c] cur have fc: "cell_x cc = i" "cell_z cc = j" by simp_all
  from wf_cellAt_fields[OF wf b] have fn: "cell_x cn = fst nb" "cell_z cn = snd nb" by simp_all
  show ?thesis
  proof (cases d)
    case West
    with n cur have "i > 0" "nb = (i - 1, j)" by (auto split: if_splits)
    with fc fn c b West show ?thesis
      by (simp add: removeWall_def clearWall_simps')
  next
    case East
    with n cur have "nb = (i + 1, j)" by auto
    with fc fn c b East show ?thesis
      by (simp add: removeWall_def clearWall_simps')
  next
    case North
    with n cur have "j > 0" "nb = (i, j - 1)" by (auto split: if_splits)
    with fc fn c b North show ?thesis
      by (simp add: removeWall_def clearWall_simps')
  next
    case South
    with n cur have "nb = (i, j + 1)" by auto
    with fc fn c b South show ?thesis
      by (simp add: removeWall_def clearWall_simps')
  qed
qed

lemma cellAt_carved:
  assumes "cur \<noteq> nb"
  shows "cellAt (carved d cur nb g) r =
     (if r = nb then map_option (\<lambda>c. (setWalls (clearWall (opposite d)) c)\<lparr> visited := True \<rparr>) (cellAt g nb)
      else if r = cur then map_option (setWalls (clearWall d)) (cellAt g cur)
      else cellAt g r)"
  using assms by (simp add: carved_def cellAt_updCell option.map_comp comp_def)

lemma walls_setWalls [simp]: "walls (setWalls f c) = f (walls c)"
  by (simp add: setWalls_def)

lemma cell_x_setWalls [simp]: "cell_x (setWalls f c) = cell_x c"
  by (simp add: setWalls_def)

lemma cell_z_setWalls [simp]: "cell_z (setWalls f c) = cell_z c"
  by (simp add: setWalls_def)

text \<open>What carving does to one wall flag and to the visited flag of any cell.\<close>

lemma carved_cell:
  assumes ne: "cur \<noteq> nb" and c: "cellAt (carved d cur nb g) r = Some c'"
  obtains c where "cellAt g r = Some c"
    "\<And>d'. wallIn d' (walls c') =
        (wallIn d' (walls c) \<and> \<not> (r = cur \<and> d' = d) \<and> \<not> (r = nb \<and> d' = opposite d))"
    "visited c' = (visited c \<or> r = nb)"
    "cell_x c' = cell_x c" "cell_z c' = cell_z c"
proof -
  from c ne obtain c0 where c0: "cellAt g r = Some c0"
    by (cases "cellAt g r") (auto simp: cellAt_carved split: if_splits)
  from c c0 ne have "c' = (if r = nb then (setWalls (clearWall (opposite d)) c0)\<lparr> visited := True \<rparr>
       else if r = cur then setWalls (clearWall d) c0 else c0)"
    by (auto simp: cellAt_carved split: if_splits)
  then have "\<And>d'. wallIn d' (walls c') =
        (wallIn d' (walls c0) \<and> \<not> (r = cur \<and> d' = d) \<and> \<not> (r = nb \<and> d' = opposite d))"
    "visited c' = (visited c0 \<or> r = nb)" "cell_x c' = cell_x c0" "cell_z c' = cell_z c0"
    using ne by (auto split: if_splits)
  with c0 show ?thesis using that by blast
qed

lemma carved_cell_ex:
  assumes ne: "cur \<noteq> nb" and c: "cellAt g r = Some c"
  shows "\<exists>c'. cellAt (carved d cur nb g) r = Some c'"
  using assms by (auto simp: cellAt_carved)

lemma wf_carved:
  assumes "wf_grid W H g"
  shows "wf_grid W H (carved d cur nb g)"
  unfolding carved_def
  by (intro wf_updCell assms) simp_all

lemma vis_carved:
  assumes ne: "cur \<noteq> nb" and b: "cellAt g nb = Some cn"
  shows "vis (carved d cur nb g) r = (vis g r \<or> r = nb)"
proof
  assume "vis (carved d cur nb g) r"
  then obtain c' where c': "cellAt (carved d cur nb g) r = Some c'" "visited c'"
    unfolding vis_def by blast
  from carved_cell[OF ne c'(1)] obtain c where "cellAt g r = Some c" "visited c' = (visited c \<or> r = nb)"
    by metis
  with c'(2) show "vis g r \<or> r = nb" unfolding vis_def by blast
next
  assume a: "vis g r \<or> r = nb"
  show "vis (carved d cur nb g) r"
  proof (cases "r = nb")
    case True
    with b ne show ?thesis by (simp add: vis_def cellAt_carved)
  next
    case False
    with a obtain c where "cellAt g r = Some c" "visited c" unfolding vis_def by blast
    with False ne show ?thesis by (auto simp: vis_def cellAt_carved)
  qed
qed

lemma sym_carved:
  assumes ne: "cur \<noteq> nb" and n: "nbr d cur = Some nb" and sym: "wallsSymmetric g"
  shows "wallsSymmetric (carved d cur nb g)"
  unfolding wallsSymmetric_def
proof (intro allI impI)
  fix a b d' ca cb
  assume h: "nbr d' a = Some b \<and> cellAt (carved d cur nb g) a = Some ca \<and>
             cellAt (carved d cur nb g) b = Some cb"
  then have nab: "nbr d' a = Some b" by simp
  from h carved_cell[OF ne, of d g a ca] obtain ca0 where
    a0: "cellAt g a = Some ca0"
      "\<And>e. wallIn e (walls ca) =
        (wallIn e (walls ca0) \<and> \<not> (a = cur \<and> e = d) \<and> \<not> (a = nb \<and> e = opposite d))"
    by metis
  from h carved_cell[OF ne, of d g b cb] obtain cb0 where
    b0: "cellAt g b = Some cb0"
      "\<And>e. wallIn e (walls cb) =
        (wallIn e (walls cb0) \<and> \<not> (b = cur \<and> e = d) \<and> \<not> (b = nb \<and> e = opposite d))"
    by metis
  from sym nab a0(1) b0(1) have s0: "wallIn d' (walls ca0) = wallIn (opposite d') (walls cb0)"
    unfolding wallsSymmetric_def by blast
  have e1: "(a = cur \<and> d' = d) = (b = nb \<and> opposite d' = opposite d)"
  proof
    assume "a = cur \<and> d' = d"
    with nab n show "b = nb \<and> opposite d' = opposite d" by simp
  next
    assume x: "b = nb \<and> opposite d' = opposite d"
    then have "d' = d" by (metis opposite_opposite)
    with x nab n nbr_inj_src[of d a nb cur] show "a = cur \<and> d' = d" by simp
  qed
  have e2: "(a = nb \<and> d' = opposite d) = (b = cur \<and> opposite d' = d)"
  proof
    assume x: "a = nb \<and> d' = opposite d"
    with nab nbr_opposite[OF n] show "b = cur \<and> opposite d' = d" by simp
  next
    assume x: "b = cur \<and> opposite d' = d"
    then have d': "d' = opposite d" by (metis opposite_opposite)
    from nbr_opposite[OF n] have "nbr (opposite d) nb = Some cur" .
    with x d' nab nbr_inj_src[of "opposite d" a cur nb] show "a = nb \<and> d' = opposite d" by simp
  qed
  show "wallIn d' (walls ca) = wallIn (opposite d') (walls cb)"
    unfolding a0(2) b0(2) s0 using e1 e2 by blast
qed

lemma passage_carved_mono:
  assumes ne: "cur \<noteq> nb" and p: "passage g a b"
  shows "passage (carved d cur nb g) a b"
proof -
  from p obtain e ca cb where h: "nbr e a = Some b" "cellAt g a = Some ca" "cellAt g b = Some cb"
      "\<not> wallIn e (walls ca)" "\<not> wallIn (opposite e) (walls cb)"
    unfolding passage_def by blast
  from carved_cell_ex[OF ne h(2)] obtain ca' where a': "cellAt (carved d cur nb g) a = Some ca'" by blast
  from carved_cell_ex[OF ne h(3)] obtain cb' where b': "cellAt (carved d cur nb g) b = Some cb'" by blast
  from carved_cell[OF ne a'] h(2,4) have wa: "\<not> wallIn e (walls ca')" by (metis option.inject)
  from carved_cell[OF ne b'] h(3,5) have wb: "\<not> wallIn (opposite e) (walls cb')" by (metis option.inject)
  from h(1) a' b' wa wb show ?thesis unfolding passage_def by blast
qed

lemma reachable_carved_mono:
  assumes ne: "cur \<noteq> nb" and r: "reachable g a b"
  shows "reachable (carved d cur nb g) a b"
proof -
  from r have "(passage g)\<^sup>*\<^sup>* a b" by (simp add: reachable_def)
  then have "(passage (carved d cur nb g))\<^sup>*\<^sup>* a b"
  proof (induction rule: rtranclp_induct)
    case base
    show ?case by simp
  next
    case (step y z)
    from passage_carved_mono[OF ne step.hyps(2)] step.IH show ?case
      by (rule rtranclp.rtrancl_into_rtrancl[rotated])
  qed
  then show ?thesis by (simp add: reachable_def)
qed

lemma passage_carved_new:
  assumes ne: "cur \<noteq> nb" and n: "nbr d cur = Some nb"
    and c: "cellAt g cur = Some cc" and b: "cellAt g nb = Some cn"
  shows "passage (carved d cur nb g) cur nb"
  unfolding passage_def
  using ne n c b
  by (intro exI[of _ d]) (simp add: cellAt_carved)

lemma cnt_carved:
  assumes ne: "cur \<noteq> nb" and c: "cellAt g cur = Some cc" and b: "cellAt g nb = Some cn"
  shows "cnt P (carved d cur nb g) + (if P cc then 1 else 0) + (if P cn then 1 else 0)
       = cnt P g + (if P (setWalls (clearWall d) cc) then 1 else 0)
           + (if P ((setWalls (clearWall (opposite d)) cn)\<lparr> visited := True \<rparr>) then 1 else 0)"
proof -
  let ?g1 = "updCell (setWalls (clearWall d)) cur g"
  let ?g2 = "updCell (setWalls (clearWall (opposite d))) nb ?g1"
  have 1: "cnt P ?g1 + (if P cc then 1 else 0) = cnt P g + (if P (setWalls (clearWall d) cc) then 1 else 0)"
    by (rule cnt_updCell[OF c])
  from ne b have b1: "cellAt ?g1 nb = Some cn" by (simp add: cellAt_updCell)
  have 2: "cnt P ?g2 + (if P cn then 1 else 0)
         = cnt P ?g1 + (if P (setWalls (clearWall (opposite d)) cn) then 1 else 0)"
    by (rule cnt_updCell[OF b1])
  from b1 have b2: "cellAt ?g2 nb = Some (setWalls (clearWall (opposite d)) cn)"
    by (simp add: cellAt_updCell)
  have 3: "cnt P (carved d cur nb g) + (if P (setWalls (clearWall (opposite d)) cn) then 1 else 0)
         = cnt P ?g2 + (if P ((setWalls (clearWall (opposite d)) cn)\<lparr> visited := True \<rparr>) then 1 else 0)"
    unfolding carved_def by (rule cnt_updCell[OF b2])
  from 1 2 3 show ?thesis by linarith
qed

lemma cnt_visited_carved:
  assumes ne: "cur \<noteq> nb" and c: "cellAt g cur = Some cc" and b: "cellAt g nb = Some cn"
    and "visited cc" "\<not> visited cn"
  shows "cnt visited (carved d cur nb g) = cnt visited g + 1"
  using cnt_carved[OF ne c b, of visited d] assms(4,5) by simp

lemma removedWalls_carved:
  assumes ne: "cur \<noteq> nb" and c: "cellAt g cur = Some cc" and b: "cellAt g nb = Some cn"
    and wc: "wallIn d (walls cc)" and wn: "\<And>e. wallIn e (walls cn)"
  shows "removedWalls (carved d cur nb g) = removedWalls g + 1"
proof -
  note E = cnt_carved[OF ne c b, of "\<lambda>c. \<not> east (walls c)" d]
  note S = cnt_carved[OF ne c b, of "\<lambda>c. \<not> south (walls c)" d]
  from wn[of East] wn[of South] have n: "east (walls cn)" "south (walls cn)" by simp_all
  show ?thesis
  proof (cases d)
    case North
    with E S n wc show ?thesis by (simp add: removedWalls_def)
  next
    case South
    with E S n wc show ?thesis by (simp add: removedWalls_def)
  next
    case East
    with E S n wc show ?thesis by (simp add: removedWalls_def)
  next
    case West
    with E S n wc show ?thesis by (simp add: removedWalls_def)
  qed
qed

section \<open>The invariant of the depth-first carve\<close>

lemma getNeighbors_wf:
  assumes wf: "wf_grid W H (grid gn)" and w: "width gn = int W" and h: "height gn = int H"
    and c: "cellAt (grid gn) cur = Some cc"
  obtains ns where "getNeighbors gn cur = Inr ns"
    "\<And>n. (n \<in> set ns) = (\<exists>d c. nbr d cur = Some n \<and> cellAt (grid gn) n = Some c \<and> \<not> visited c)"
proof -
  obtain i j where cur: "cur = (i, j)" by (cases cur)
  from wf_cellAt_fields[OF wf c] cur have f: "cell_x cc = i" "cell_z cc = j" by simp_all
  from wf_cellAt[OF wf, of i j] c cur have ij: "i < W" "j < H" by auto
  define cand where "cand = (if i > 0 then [(i - 1, j)] else [])
                  @ (if int i < int W - 1 then [(i + 1, j)] else [])
                  @ (if j > 0 then [(i, j - 1)] else [])
                  @ (if int j < int H - 1 then [(i, j + 1)] else [])"
  have inb: "\<And>n. n \<in> set cand \<Longrightarrow> cellAt (grid gn) n \<noteq> None"
  proof -
    fix n assume "n \<in> set cand"
    then have "fst n < W \<and> snd n < H" using ij
      by (auto simp: cand_def split: if_splits)
    with wf_cellAt[OF wf, of "fst n" "snd n"] show "cellAt (grid gn) n \<noteq> None" by simp
  qed
  have cand_iff: "\<And>n. (n \<in> set cand) = (\<exists>d. nbr d cur = Some n \<and> cellAt (grid gn) n \<noteq> None)"
  proof
    fix n assume n: "n \<in> set cand"
    then have "\<exists>d. nbr d (i, j) = Some n"
    proof -
      from n consider "i > 0 \<and> n = (i - 1, j)" | "n = (i + 1, j)" | "j > 0 \<and> n = (i, j - 1)" | "n = (i, j + 1)"
        by (auto simp: cand_def split: if_splits)
      then show ?thesis
      proof cases
        case 1 then have "nbr West (i, j) = Some n" by simp then show ?thesis ..
      next
        case 2 then have "nbr East (i, j) = Some n" by simp then show ?thesis ..
      next
        case 3 then have "nbr North (i, j) = Some n" by simp then show ?thesis ..
      next
        case 4 then have "nbr South (i, j) = Some n" by simp then show ?thesis ..
      qed
    qed
    with inb[OF n] cur show "\<exists>d. nbr d cur = Some n \<and> cellAt (grid gn) n \<noteq> None" by simp
  next
    fix n assume "\<exists>d. nbr d cur = Some n \<and> cellAt (grid gn) n \<noteq> None"
    then obtain d where d: "nbr d (i, j) = Some n" "cellAt (grid gn) n \<noteq> None" using cur by auto
    from d(2) wf_cellAt[OF wf, of "fst n" "snd n"] have nb: "fst n < W" "snd n < H" by simp_all
    show "n \<in> set cand"
    proof (cases d)
      case West with d(1) show ?thesis by (auto simp: cand_def split: if_splits)
    next
      case East with d(1) nb show ?thesis by (auto simp: cand_def split: if_splits)
    next
      case North with d(1) show ?thesis by (auto simp: cand_def split: if_splits)
    next
      case South with d(1) nb show ?thesis by (auto simp: cand_def split: if_splits)
    qed
  qed
  have all: "list_all (\<lambda>n. cellAt (grid gn) n \<noteq> None) cand"
    using inb by (simp add: list_all_iff)
  have gN: "getNeighbors gn cur = Inr (filter (\<lambda>n. \<not> visited (the (cellAt (grid gn) n))) cand)"
    using all c f w h unfolding getNeighbors_def cand_def by (simp add: Let_def)
  show ?thesis
  proof (rule that[OF gN])
    fix n
    show "(n \<in> set (filter (\<lambda>n. \<not> visited (the (cellAt (grid gn) n))) cand)) =
          (\<exists>d c. nbr d cur = Some n \<and> cellAt (grid gn) n = Some c \<and> \<not> visited c)"
      using cand_iff[of n] by auto
  qed
qed

lemma dfs_invI:
  assumes "width (gen st) = int W" "height (gen st) = int H"
      "wf_grid W H (grid (gen st))"
      "vis (grid (gen st)) (currentCell st)"
      "\<forall>r \<in> set (stack st). vis (grid (gen st)) r"
      "vis (grid (gen st)) (0, 0)"
      "\<forall>r c d. cellAt (grid (gen st)) r = Some c \<and> \<not> visited c \<longrightarrow> wallIn d (walls c)"
      "wallsSymmetric (grid (gen st))"
      "\<forall>r. vis (grid (gen st)) r \<longrightarrow> reachable (grid (gen st)) (0, 0) r"
      "removedWalls (grid (gen st)) + 1 = cnt visited (grid (gen st))"
      "\<forall>r n d. vis (grid (gen st)) r \<and> r \<noteq> currentCell st \<and> r \<notin> set (stack st) \<and>
          nbr d r = Some n \<and> cellAt (grid (gen st)) n \<noteq> None \<longrightarrow> vis (grid (gen st)) n"
  shows "dfs_inv W H st"
  unfolding dfs_inv_def using assms by (intro conjI) assumption+

lemma dfs_invD:
  assumes "dfs_inv W H st"
  shows "width (gen st) = int W" "height (gen st) = int H"
      "wf_grid W H (grid (gen st))"
      "vis (grid (gen st)) (currentCell st)"
      "\<forall>r \<in> set (stack st). vis (grid (gen st)) r"
      "vis (grid (gen st)) (0, 0)"
      "\<forall>r c d. cellAt (grid (gen st)) r = Some c \<and> \<not> visited c \<longrightarrow> wallIn d (walls c)"
      "wallsSymmetric (grid (gen st))"
      "\<forall>r. vis (grid (gen st)) r \<longrightarrow> reachable (grid (gen st)) (0, 0) r"
      "removedWalls (grid (gen st)) + 1 = cnt visited (grid (gen st))"
      "\<forall>r n d. vis (grid (gen st)) r \<and> r \<noteq> currentCell st \<and> r \<notin> set (stack st) \<and>
          nbr d r = Some n \<and> cellAt (grid (gen st)) n \<noteq> None \<longrightarrow> vis (grid (gen st)) n"
  using assms unfolding dfs_inv_def by blast+

lemma dfs_inv_carve:
  assumes inv: "dfs_inv W H st"
    and n: "nbr d (currentCell st) = Some nb"
    and b: "cellAt (grid (gen st)) nb = Some cn" and nv: "\<not> visited cn"
  shows "dfs_inv W H \<lparr> gen = (gen st)\<lparr> grid := carved d (currentCell st) nb (grid (gen st)), random := rnd \<rparr>,
                        stack = currentCell st # stack st, currentCell = nb \<rparr>"
proof -
  let ?g = "grid (gen st)" and ?cur = "currentCell st"
  let ?g' = "carved d ?cur nb ?g"
  from inv have wh: "width (gen st) = int W" "height (gen st) = int H"
    and wf: "wf_grid W H ?g" and vc: "vis ?g ?cur" and vs: "\<forall>r \<in> set (stack st). vis ?g r"
    and v0: "vis ?g (0, 0)"
    and uw: "\<forall>r c d. cellAt ?g r = Some c \<and> \<not> visited c \<longrightarrow> wallIn d (walls c)"
    and sym: "wallsSymmetric ?g"
    and rch: "\<forall>r. vis ?g r \<longrightarrow> reachable ?g (0, 0) r"
    and cn: "removedWalls ?g + 1 = cnt visited ?g"
    and cl: "\<forall>r n d. vis ?g r \<and> r \<noteq> ?cur \<and> r \<notin> set (stack st) \<and>
          nbr d r = Some n \<and> cellAt ?g n \<noteq> None \<longrightarrow> vis ?g n"
    unfolding dfs_inv_def by blast+
  from vc obtain cc where c: "cellAt ?g ?cur = Some cc" "visited cc" unfolding vis_def by blast
  from nbr_neq[OF n] have ne: "?cur \<noteq> nb" .
  from uw b nv have wn: "\<And>e. wallIn e (walls cn)" by blast
  from sym n c(1) b have "wallIn d (walls cc) = wallIn (opposite d) (walls cn)"
    unfolding wallsSymmetric_def by blast
  with wn have wc: "wallIn d (walls cc)" by simp
  note V = vis_carved[OF ne b, of d]
  have 1: "wf_grid W H ?g'" by (rule wf_carved[OF wf])
  have 2: "vis ?g' nb" by (simp add: V)
  have 3: "\<forall>r \<in> set (?cur # stack st). vis ?g' r" using vc vs by (simp add: V)
  have 4: "vis ?g' (0, 0)" using v0 by (simp add: V)
  have 5: "\<forall>r c e. cellAt ?g' r = Some c \<and> \<not> visited c \<longrightarrow> wallIn e (walls c)"
  proof (intro allI impI)
    fix r c e assume a: "cellAt ?g' r = Some c \<and> \<not> visited c"
    then have a1: "cellAt ?g' r = Some c" and a2: "\<not> visited c" by simp_all
    from carved_cell[OF ne a1] obtain c0 where c0: "cellAt ?g r = Some c0"
      "\<And>d'. wallIn d' (walls c) =
        (wallIn d' (walls c0) \<and> \<not> (r = ?cur \<and> d' = d) \<and> \<not> (r = nb \<and> d' = opposite d))"
      "visited c = (visited c0 \<or> r = nb)" by metis
    from c0(3) a2 have r: "r \<noteq> nb" "\<not> visited c0" by simp_all
    with c0(1) c have "r \<noteq> ?cur" by auto
    with r c0(1,2) uw show "wallIn e (walls c)" by blast
  qed
  have 6: "wallsSymmetric ?g'" by (rule sym_carved[OF ne n sym])
  have 7: "\<forall>r. vis ?g' r \<longrightarrow> reachable ?g' (0, 0) r"
  proof (intro allI impI)
    fix r assume "vis ?g' r"
    then have "vis ?g r \<or> r = nb" by (simp add: V)
    then show "reachable ?g' (0, 0) r"
    proof
      assume "vis ?g r"
      with rch have "reachable ?g (0, 0) r" by blast
      then show ?thesis by (rule reachable_carved_mono[OF ne])
    next
      assume r: "r = nb"
      from rch vc have "reachable ?g (0, 0) ?cur" by blast
      then have "reachable ?g' (0, 0) ?cur" by (rule reachable_carved_mono[OF ne])
      moreover have "passage ?g' ?cur nb" by (rule passage_carved_new[OF ne n c(1) b])
      ultimately show ?thesis unfolding reachable_def r by (rule rtranclp.rtrancl_into_rtrancl)
    qed
  qed
  have 8: "removedWalls ?g' + 1 = cnt visited ?g'"
    using removedWalls_carved[OF ne c(1) b wc wn] cnt_visited_carved[OF ne c(1) b c(2) nv] cn
    by simp
  have 9: "\<forall>r m e. vis ?g' r \<and> r \<noteq> nb \<and> r \<notin> set (?cur # stack st) \<and>
          nbr e r = Some m \<and> cellAt ?g' m \<noteq> None \<longrightarrow> vis ?g' m"
  proof (intro allI impI)
    fix r m e
    assume a: "vis ?g' r \<and> r \<noteq> nb \<and> r \<notin> set (?cur # stack st) \<and>
          nbr e r = Some m \<and> cellAt ?g' m \<noteq> None"
    then have vr: "vis ?g r" by (auto simp: V)
    from a obtain cm' where "cellAt ?g' m = Some cm'" by auto
    from carved_cell[OF ne this] have "cellAt ?g m \<noteq> None" by (metis option.distinct(1))
    with a vr have "vis ?g r \<and> r \<noteq> ?cur \<and> r \<notin> set (stack st) \<and>
          nbr e r = Some m \<and> cellAt ?g m \<noteq> None" by simp
    with cl have "vis ?g m" by blast
    then show "vis ?g' m" by (simp add: V)
  qed
  show ?thesis
  proof (rule dfs_invI, goal_cases)
    case 1 from wh(1) show ?case by simp
  next
    case 2 from wh(2) show ?case by simp
  next
    case 3 from 1 show ?case by simp
  next
    case 4 from 2 show ?case by simp
  next
    case 5 from 3 show ?case by simp
  next
    case 6 from 4 show ?case by simp
  next
    case 7 from 5 show ?case by simp
  next
    case 8 from 6 show ?case by simp
  next
    case 9 from 7 show ?case by simp
  next
    case 10 from 8 show ?case by simp
  next
    case 11 from 9 show ?case by simp
  qed
qed

lemma dfs_inv_pop:
  assumes inv: "dfs_inv W H st"
    and nil: "\<forall>n d c. nbr d (currentCell st) = Some n \<and> cellAt (grid (gen st)) n = Some c \<longrightarrow> visited c"
    and stk: "stack st = tp # rest"
  shows "dfs_inv W H (st\<lparr> stack := rest, currentCell := tp \<rparr>)"
proof -
  let ?g = "grid (gen st)" and ?cur = "currentCell st"
  note D = dfs_invD[OF inv]
  have 9: "\<forall>r n d. vis ?g r \<and> r \<noteq> tp \<and> r \<notin> set rest \<and>
          nbr d r = Some n \<and> cellAt ?g n \<noteq> None \<longrightarrow> vis ?g n"
  proof (intro allI impI)
    fix r n d
    assume a: "vis ?g r \<and> r \<noteq> tp \<and> r \<notin> set rest \<and> nbr d r = Some n \<and> cellAt ?g n \<noteq> None"
    show "vis ?g n"
    proof (cases "r = ?cur")
      case True
      from a obtain c where c: "cellAt ?g n = Some c" by auto
      from a True have "nbr d ?cur = Some n" by simp
      with nil c have "visited c" by blast
      with c show ?thesis unfolding vis_def by simp
    next
      case False
      with a stk have "vis ?g r \<and> r \<noteq> ?cur \<and> r \<notin> set (stack st) \<and>
          nbr d r = Some n \<and> cellAt ?g n \<noteq> None" by simp
      with D(11) show ?thesis by blast
    qed
  qed
  from D(5) stk have v: "vis ?g tp" "\<forall>r \<in> set rest. vis ?g r" by simp_all
  show ?thesis
  proof (rule dfs_invI, goal_cases)
    case 1 from D(1) show ?case by simp
  next
    case 2 from D(2) show ?case by simp
  next
    case 3 from D(3) show ?case by simp
  next
    case 4 from v(1) show ?case by simp
  next
    case 5 from v(2) show ?case by simp
  next
    case 6 from D(6) show ?case by simp
  next
    case 7 from D(7) show ?case by simp
  next
    case 8 from D(8) show ?case by simp
  next
    case 9 from D(9) show ?case by simp
  next
    case 10 from D(10) show ?case by simp
  next
    case 11 from 9 show ?case by simp
  qed
qed

lemma randomIndex_bound:
  assumes "0 < n"
  shows "fst (randomIndex r n) < n"
proof -
  let ?u = "rng_result (rng_step r)"
  have u: "0 \<le> ?u" "?u < 4294967296" by (simp_all add: rng_result_def toUint32_def)
  have "?u * int n < 4294967296 * int n" using u(2) assms by simp
  then have "?u * int n div 4294967296 < int n"
    by (simp add: div_less_iff_less_mult mult.commute)
  moreover have "0 \<le> ?u * int n div 4294967296" using u(1) by (simp add: pos_imp_zdiv_nonneg_iff)
  ultimately show ?thesis by (simp add: randomIndex_code nat_less_iff)
qed

text \<open>One round of the loop from a state that satisfies the invariant.\<close>

lemma loop_body_inv:
  assumes inv: "dfs_inv W H st"
  shows "(\<exists>st'. loop_body st = Inr (Some st') \<and> dfs_inv W H st')
       \<or> (loop_body st = Inr None \<and> stack st = [] \<and>
          (\<forall>n d c. nbr d (currentCell st) = Some n \<and> cellAt (grid (gen st)) n = Some c \<longrightarrow> visited c))"
proof -
  let ?g = "grid (gen st)" and ?cur = "currentCell st"
  from inv have wh: "width (gen st) = int W" "height (gen st) = int H"
    and wf: "wf_grid W H ?g" and vc: "vis ?g ?cur"
    unfolding dfs_inv_def by blast+
  from vc obtain cc where c: "cellAt ?g ?cur = Some cc" unfolding vis_def by blast
  from getNeighbors_wf[OF wf wh c] obtain ns where
    ns: "getNeighbors (gen st) ?cur = Inr ns"
      "\<And>n. (n \<in> set ns) = (\<exists>d c. nbr d ?cur = Some n \<and> cellAt ?g n = Some c \<and> \<not> visited c)"
    by blast
  show ?thesis
  proof (cases "ns = []")
    case False
    obtain k rnd where kr: "randomIndex (random (gen st)) (length ns) = (k, rnd)"
      by (cases "randomIndex (random (gen st)) (length ns)")
    from randomIndex_bound[of "length ns" "random (gen st)"] False kr have k: "k < length ns" by simp
    then have "ns ! k \<in> set ns" by simp
    with ns(2) obtain d cn where d: "nbr d ?cur = Some (ns ! k)" "cellAt ?g (ns ! k) = Some cn" "\<not> visited cn"
      by blast
    have rw: "updCell (\<lambda>c. c\<lparr> visited := True \<rparr>) (ns ! k) (removeWall ?cur (ns ! k) ?g)
            = carved d ?cur (ns ! k) ?g"
      by (simp add: removeWall_dir[OF wf d(1) c d(2)] carved_def)
    have lb: "loop_body st = Inr (Some \<lparr> gen = (gen st)\<lparr> grid := carved d ?cur (ns ! k) ?g, random := rnd \<rparr>,
                        stack = ?cur # stack st, currentCell = ns ! k \<rparr>)"
      using ns(1) False kr k rw by (simp add: loop_body_def Let_def)
    have "dfs_inv W H \<lparr> gen = (gen st)\<lparr> grid := carved d ?cur (ns ! k) ?g, random := rnd \<rparr>,
                        stack = ?cur # stack st, currentCell = ns ! k \<rparr>"
      by (rule dfs_inv_carve[OF inv d])
    with lb show ?thesis by simp
  next
    case True
    have nil: "\<forall>n d c. nbr d ?cur = Some n \<and> cellAt ?g n = Some c \<longrightarrow> visited c"
    proof (intro allI impI)
      fix n d c assume a: "nbr d ?cur = Some n \<and> cellAt ?g n = Some c"
      show "visited c"
      proof (rule ccontr)
        assume "\<not> visited c"
        with a ns(2)[of n] have "n \<in> set ns" by blast
        with True show False by simp
      qed
    qed
    show ?thesis
    proof (cases "stack st")
      case Nil
      with ns(1) True have "loop_body st = Inr None" by (simp add: loop_body_def)
      with Nil nil show ?thesis by simp
    next
      case (Cons tp rest)
      with ns(1) True have "loop_body st = Inr (Some (st\<lparr> stack := rest, currentCell := tp \<rparr>))"
        by (simp add: loop_body_def)
      with dfs_inv_pop[OF inv nil Cons] show ?thesis by simp
    qed
  qed
qed

lemma cellAt_initializeGrid:
  "cellAt (initializeGrid w h) (i, j) = (if i < nat w \<and> j < nat h then Some (newCell i j) else None)"
  by (auto simp: cellAt_def initializeGrid_def)

lemma wf_initializeGrid: "wf_grid (nat w) (nat h) (initializeGrid w h)"
proof -
  have "\<And>r c. cellAt (initializeGrid w h) r = Some c \<Longrightarrow> cell_x c = fst r \<and> cell_z c = snd r"
  proof -
    fix r c assume a: "cellAt (initializeGrid w h) r = Some c"
    obtain i j where r: "r = (i, j)" by (cases r)
    with a have "c = newCell i j" by (simp add: cellAt_initializeGrid split: if_splits)
    with r show "cell_x c = fst r \<and> cell_z c = snd r" by (simp add: newCell_def)
  qed
  moreover have "length (initializeGrid w h) = nat w" by (simp add: initializeGrid_def)
  moreover have "\<forall>i<nat w. length (initializeGrid w h ! i) = nat h" by (simp add: initializeGrid_def)
  ultimately show ?thesis unfolding wf_grid_def by blast
qed

lemma dfs_inv_start:
  assumes w: "1 \<le> w" and h: "1 \<le> h"
    and g0: "MazeGenerator_constructor w h sd drawn = Inr g0"
  shows "dfs_inv (nat w) (nat h) (generate_start g0)"
proof -
  let ?g0 = "initializeGrid w h"
  let ?g1 = "updCell (\<lambda>c. c\<lparr> visited := True \<rparr>) (0, 0) ?g0"
  from g0 have f: "width g0 = w" "height g0 = h" "grid g0 = ?g0"
    by (auto simp: MazeGenerator_constructor_def Let_def)
  have st: "gen (generate_start g0) = g0\<lparr> grid := ?g1 \<rparr>" "stack (generate_start g0) = []"
      "currentCell (generate_start g0) = (0, 0)"
    by (simp_all add: generate_start_def f)
  from w h have c00: "cellAt ?g0 (0, 0) = Some (newCell 0 0)" by (simp add: cellAt_initializeGrid)
  have c1: "\<And>r. cellAt ?g1 r = (if r = (0, 0) then Some ((newCell 0 0)\<lparr> visited := True \<rparr>) else cellAt ?g0 r)"
    by (simp add: cellAt_updCell c00)
  have c1': "\<And>r c. cellAt ?g1 r = Some c \<Longrightarrow>
      (\<forall>d. wallIn d (walls c)) \<and> (visited c = (r = (0, 0)))"
  proof -
    fix r c assume a: "cellAt ?g1 r = Some c"
    obtain i j where r: "r = (i, j)" by (cases r)
    have "c = (if r = (0, 0) then (newCell 0 0)\<lparr> visited := True \<rparr> else newCell i j)"
      using a r by (auto simp: c1 cellAt_initializeGrid split: if_splits)
    moreover have "\<And>d i j. wallIn d (walls (newCell i j))" 
    proof -
      fix d i j show "wallIn d (walls (newCell i j))" by (cases d) (simp_all add: newCell_def)
    qed
    ultimately show "(\<forall>d. wallIn d (walls c)) \<and> (visited c = (r = (0, 0)))"
      by (simp add: newCell_def)
  qed
  have v: "\<And>r. vis ?g1 r = (r = (0, 0))"
  proof -
    fix r show "vis ?g1 r = (r = (0, 0))"
      unfolding vis_def using c1'[of r] c1[of r] by auto
  qed
  have wf: "wf_grid (nat w) (nat h) ?g1"
    by (rule wf_updCell[OF wf_initializeGrid]) simp_all
  have "cnt visited ?g0 = 0"
  proof (rule cnt_none)
    fix r c assume "cellAt ?g0 r = Some c"
    then show "\<not> visited c" by (cases r) (auto simp: cellAt_initializeGrid newCell_def split: if_splits)
  qed
  with cnt_updCell[OF c00, of visited "\<lambda>c. c\<lparr> visited := True \<rparr>"]
  have cv: "cnt visited ?g1 = 1" by (simp add: newCell_def)
  have "cnt (\<lambda>c. \<not> east (walls c)) ?g1 = 0"
  proof (rule cnt_none)
    fix r c assume "cellAt ?g1 r = Some c"
    from c1'[OF this] have "wallIn East (walls c)" by blast
    then show "\<not> \<not> east (walls c)" by simp
  qed
  moreover have "cnt (\<lambda>c. \<not> south (walls c)) ?g1 = 0"
  proof (rule cnt_none)
    fix r c assume "cellAt ?g1 r = Some c"
    from c1'[OF this] have "wallIn South (walls c)" by blast
    then show "\<not> \<not> south (walls c)" by simp
  qed
  ultimately have rw: "removedWalls ?g1 = 0" by (simp add: removedWalls_def)
  have sym: "wallsSymmetric ?g1"
    unfolding wallsSymmetric_def using c1' by blast
  show ?thesis
  proof (rule dfs_invI, goal_cases)
    case 1 from w show ?case by (simp add: st f)
  next
    case 2 from h show ?case by (simp add: st f)
  next
    case 3 from wf w h show ?case by (simp add: st)
  next
    case 4 show ?case by (simp add: st v)
  next
    case 5 show ?case by (simp add: st)
  next
    case 6 show ?case by (simp add: st v)
  next
    case 7
    have "\<forall>r c d. cellAt ?g1 r = Some c \<and> \<not> visited c \<longrightarrow> wallIn d (walls c)"
      using c1' by blast
    then show ?case by (simp add: st)
  next
    case 8 from sym show ?case by (simp add: st)
  next
    case 9 show ?case by (simp add: st v reachable_def)
  next
    case 10 show ?case by (simp add: st rw cv)
  next
    case 11 show ?case by (simp add: st v)
  qed
qed

lemma loop_steps_inv:
  assumes "loop_steps st0 st" "dfs_inv W H st0"
  shows "dfs_inv W H st"
proof -
  from assms(1) have "(\<lambda>a b. loop_body a = Inr (Some b))\<^sup>*\<^sup>* st0 st" by (simp add: loop_steps_def)
  then show ?thesis
  proof (induction rule: rtranclp_induct)
    case base
    show ?case by (rule assms(2))
  next
    case (step y z)
    from loop_body_inv[OF step.IH] step.hyps(2) show ?case by auto
  qed
qed

lemma all_visited:
  assumes wf: "wf_grid W H g" and v0: "vis g (0, 0)"
    and cl: "\<forall>r n d. vis g r \<and> nbr d r = Some n \<and> cellAt g n \<noteq> None \<longrightarrow> vis g n"
    and ij: "i < W" "j < H"
  shows "vis g (i, j)"
proof -
  from v0 have "cellAt g (0, 0) \<noteq> None" unfolding vis_def by auto
  with wf_cellAt[OF wf, of 0 0] have pos: "0 < W" "0 < H" by simp_all
  have row: "k < W \<Longrightarrow> vis g (k, 0)" for k
  proof (induction k)
    case 0
    show ?case by (rule v0)
  next
    case (Suc k)
    then have "vis g (k, 0)" by simp
    moreover have "nbr East (k, 0) = Some (Suc k, 0)" by simp
    moreover from Suc.prems pos wf_cellAt[OF wf, of "Suc k" 0] have "cellAt g (Suc k, 0) \<noteq> None" by simp
    ultimately show ?case using cl by blast
  qed
  have col: "l < H \<Longrightarrow> vis g (i, l)" for l
  proof (induction l)
    case 0
    show ?case by (rule row[OF ij(1)])
  next
    case (Suc l)
    then have "vis g (i, l)" by simp
    moreover have "nbr South (i, l) = Some (i, Suc l)" by simp
    moreover from Suc.prems ij(1) wf_cellAt[OF wf, of i "Suc l"] have "cellAt g (i, Suc l) \<noteq> None" by simp
    ultimately show ?case using cl by blast
  qed
  show ?thesis by (rule col[OF ij(2)])
qed

lemma generate_loop_inv:
  "dfs_inv W H st \<Longrightarrow>
   \<exists>st'. generate_loop st = Inr (gen st') \<and> loop_steps st st' \<and> loop_body st' = Inr None"
proof (induction st rule: generate_loop.induct)
  case (1 st)
  from loop_body_inv[OF "1.prems"] show ?case
  proof
    assume "\<exists>st1. loop_body st = Inr (Some st1) \<and> dfs_inv W H st1"
    then obtain st1 where s1: "loop_body st = Inr (Some st1)" "dfs_inv W H st1" by blast
    from "1.IH"[OF s1(1) refl s1(2)] obtain st' where
      st': "generate_loop st1 = Inr (gen st')" "loop_steps st1 st'" "loop_body st' = Inr None"
      by blast
    from s1(1) have "generate_loop st = generate_loop st1"
      by (subst generate_loop.simps) simp
    moreover from s1(1) st'(2) have "loop_steps st st'"
      unfolding loop_steps_def by (rule converse_rtranclp_into_rtranclp)
    ultimately show ?thesis using st' by auto
  next
    assume a: "loop_body st = Inr None \<and> stack st = [] \<and>
      (\<forall>n d c. nbr d (currentCell st) = Some n \<and> cellAt (grid (gen st)) n = Some c \<longrightarrow> visited c)"
    then have "generate_loop st = Inr (gen st)"
      by (subst generate_loop.simps) simp
    moreover have "loop_steps st st" by (simp add: loop_steps_def)
    ultimately show ?thesis using a by blast
  qed
qed

text \<open>What the invariant gives once the loop has reached its \<open>break\<close>.\<close>

lemma dfs_inv_final:
  assumes inv: "dfs_inv W H st" and fin: "loop_body st = Inr None"
  shows "wf_grid W H (grid (gen st))"
    and "\<forall>i<W. \<forall>j<H. vis (grid (gen st)) (i, j)"
    and "connected (grid (gen st))"
    and "removedWalls (grid (gen st)) + 1 = W * H"
    and "wallsSymmetric (grid (gen st))"
proof -
  let ?g = "grid (gen st)"
  note D = dfs_invD[OF inv]
  from loop_body_inv[OF inv] fin have
    e: "stack st = []"
       "\<forall>n d c. nbr d (currentCell st) = Some n \<and> cellAt ?g n = Some c \<longrightarrow> visited c"
    by auto
  have cl: "\<forall>r n d. vis ?g r \<and> nbr d r = Some n \<and> cellAt ?g n \<noteq> None \<longrightarrow> vis ?g n"
  proof (intro allI impI)
    fix r n d assume a: "vis ?g r \<and> nbr d r = Some n \<and> cellAt ?g n \<noteq> None"
    show "vis ?g n"
    proof (cases "r = currentCell st")
      case True
      from a obtain c where c: "cellAt ?g n = Some c" by auto
      with a True e(2) have "visited c" by blast
      with c show ?thesis unfolding vis_def by simp
    next
      case False
      with a e(1) have "vis ?g r \<and> r \<noteq> currentCell st \<and> r \<notin> set (stack st) \<and>
          nbr d r = Some n \<and> cellAt ?g n \<noteq> None" by simp
      with D(11) show ?thesis by blast
    qed
  qed
  show wf: "wf_grid W H ?g" by (rule D(3))
  show av: "\<forall>i<W. \<forall>j<H. vis ?g (i, j)"
    using all_visited[OF D(3) D(6) cl] by blast
  show "connected ?g"
    unfolding connected_def
  proof (intro allI impI)
    fix a b assume ab: "cellAt ?g a \<noteq> None \<and> cellAt ?g b \<noteq> None"
    obtain i j where a: "a = (i, j)" by (cases a)
    obtain k l where b: "b = (k, l)" by (cases b)
    from ab a b wf_cellAt[OF wf] have "i < W" "j < H" "k < W" "l < H" by auto
    with av a b have "vis ?g a" "vis ?g b" by simp_all
    with D(9) have "reachable ?g (0, 0) a" "reachable ?g (0, 0) b" by blast+
    from reachable_trans[OF reachable_sym[OF this(1)] this(2)] show "reachable ?g a b" .
  qed
  have "cnt visited ?g = W * H"
  proof (rule cnt_all[OF wf])
    fix r c assume c: "cellAt ?g r = Some c"
    obtain i j where r: "r = (i, j)" by (cases r)
    from c r wf_cellAt[OF wf, of i j] have "i < W" "j < H" by auto
    with av r have "vis ?g r" by simp
    with c show "visited c" unfolding vis_def by simp
  qed
  with D(10) show "removedWalls ?g + 1 = W * H" by simp
  show "wallsSymmetric ?g" by (rule D(8))
qed

section \<open>Properties of generate\<close>

lemma constructor_fields:
  assumes "MazeGenerator_constructor w h sd drawn = Inr g0"
  shows "width g0 = w" "height g0 = h" "grid g0 = initializeGrid w h"
  using assms by (auto simp: MazeGenerator_constructor_def Let_def)

lemma generate_final_state:
  assumes w: "1 \<le> w" and h: "1 \<le> h"
    and g0: "MazeGenerator_constructor w h sd drawn = Inr g0"
  shows "\<exists>st. generate g0 = Inr (gen st) \<and> dfs_inv (nat w) (nat h) st \<and> loop_body st = Inr None"
proof -
  note inv0 = dfs_inv_start[OF w h g0]
  from generate_loop_inv[OF inv0] obtain st where
    st: "generate_loop (generate_start g0) = Inr (gen st)" "loop_steps (generate_start g0) st"
      "loop_body st = Inr None" by blast
  from w h have "cellAt (grid g0) (0, 0) \<noteq> None"
    by (simp add: constructor_fields[OF g0] cellAt_initializeGrid)
  with st(1) have "generate g0 = Inr (gen st)" by (auto simp: generate_def)
  with loop_steps_inv[OF st(2) inv0] st(3) show ?thesis by blast
qed

text \<open>
  C2. For every width and height of at least 1, \<open>generate()\<close> returns (the loop is a
  total function and no exception is raised) a grid of that size in which every cell
  is reachable from every other cell through walls that are open on both sides, and
  exactly \<open>width * height - 1\<close> walls have been removed.
\<close>

theorem generate_spanning_tree:
  assumes "1 \<le> w" and "1 \<le> h"
    and "MazeGenerator_constructor w h sd drawn = Inr g0"
  shows "\<exists>gn. generate g0 = Inr gn \<and> wf_grid (nat w) (nat h) (grid gn) \<and>
              connected (grid gn) \<and> removedWalls (grid gn) = nat (w * h) - 1"
proof -
  from generate_final_state[OF assms] obtain st where
    st: "generate g0 = Inr (gen st)" "dfs_inv (nat w) (nat h) st" "loop_body st = Inr None"
    by blast
  note F = dfs_inv_final[OF st(2,3)]
  from assms(1,2) have "nat w * nat h = nat (w * h)" by (simp add: nat_mult_distrib)
  with F(4) have "removedWalls (grid (gen st)) = nat (w * h) - 1" by simp
  with st(1) F(1,3) show ?thesis by blast
qed

theorem generate_spanning_tree_witness:
  "(1::int) \<le> 2 \<and> (1::int) \<le> 3 \<and>
   MazeGenerator_constructor 2 3 (Some 42) 7 =
     Inr \<lparr> width = 2, height = 3, grid = initializeGrid 2 3, seed = 42, random = seededRandom 42 \<rparr> \<and>
   (\<exists>gn. generate \<lparr> width = 2, height = 3, grid = initializeGrid 2 3, seed = 42,
                     random = seededRandom 42 \<rparr> = Inr gn \<and>
         wf_grid 2 3 (grid gn) \<and> connected (grid gn) \<and> removedWalls (grid gn) = 5)"
proof -
  have c: "MazeGenerator_constructor 2 3 (Some 42) 7 =
     Inr \<lparr> width = 2, height = 3, grid = initializeGrid 2 3, seed = 42, random = seededRandom 42 \<rparr>"
    by (simp add: MazeGenerator_constructor_def)
  from generate_spanning_tree[OF _ _ c] c show ?thesis by simp
qed

lemma wallsSymmetric_initializeGrid: "wallsSymmetric (initializeGrid w h)"
proof -
  have "\<And>r c d. cellAt (initializeGrid w h) r = Some c \<Longrightarrow> wallIn d (walls c)"
  proof -
    fix r c d assume a: "cellAt (initializeGrid w h) r = Some c"
    obtain i j where "r = (i, j)" by (cases r)
    with a have "c = newCell i j" by (simp add: cellAt_initializeGrid split: if_splits)
    then show "wallIn d (walls c)" by (cases d) (simp_all add: newCell_def)
  qed
  then show ?thesis unfolding wallsSymmetric_def by blast
qed

text \<open>
  C6. The walls are symmetric in the grid the constructor builds, in every state at
  the head of the loop of \<open>generate()\<close>, and in the grid \<open>generate()\<close> returns: whenever
  two cells are neighbours in some direction, the wall of the first towards the second
  and the wall of the second towards the first are both present or both open.
\<close>

theorem walls_symmetric_throughout:
  assumes "MazeGenerator_constructor w h sd drawn = Inr g0"
  shows "wallsSymmetric (grid g0) \<and>
         (\<forall>st. during_generate g0 st \<longrightarrow> wallsSymmetric (grid (gen st))) \<and>
         (\<forall>gn. generate g0 = Inr gn \<longrightarrow> wallsSymmetric (grid gn))"
proof (cases "1 \<le> w \<and> 1 \<le> h")
  case True
  then have w: "1 \<le> w" and h: "1 \<le> h" by simp_all
  note inv0 = dfs_inv_start[OF w h assms]
  have 1: "wallsSymmetric (grid g0)"
    by (simp add: constructor_fields[OF assms] wallsSymmetric_initializeGrid)
  have 2: "\<forall>st. during_generate g0 st \<longrightarrow> wallsSymmetric (grid (gen st))"
  proof (intro allI impI)
    fix st assume "during_generate g0 st"
    then have "loop_steps (generate_start g0) st" by (simp add: during_generate_def)
    from dfs_invD(8)[OF loop_steps_inv[OF this inv0]] show "wallsSymmetric (grid (gen st))" .
  qed
  from generate_final_state[OF w h assms] obtain st where
    st: "generate g0 = Inr (gen st)" "dfs_inv (nat w) (nat h) st" "loop_body st = Inr None"
    by blast
  from dfs_invD(8)[OF st(2)] st(1) have 3: "\<forall>gn. generate g0 = Inr gn \<longrightarrow> wallsSymmetric (grid gn)"
    by simp
  from 1 2 3 show ?thesis by blast
next
  case False
  then have "cellAt (grid g0) (0, 0) = None"
    by (auto simp: constructor_fields[OF assms] cellAt_initializeGrid)
  then have "\<forall>st. \<not> during_generate g0 st" "generate g0 = Inl TypeError"
    by (simp_all add: during_generate_def generate_def)
  then show ?thesis
    by (simp add: constructor_fields[OF assms] wallsSymmetric_initializeGrid)
qed

theorem walls_symmetric_throughout_witness:
  "MazeGenerator_constructor 2 3 (Some 42) 7 =
     Inr \<lparr> width = 2, height = 3, grid = initializeGrid 2 3, seed = 42, random = seededRandom 42 \<rparr> \<and>
   wallsSymmetric (initializeGrid 2 3) \<and>
   during_generate \<lparr> width = 2, height = 3, grid = initializeGrid 2 3, seed = 42,
                      random = seededRandom 42 \<rparr>
     (generate_start \<lparr> width = 2, height = 3, grid = initializeGrid 2 3, seed = 42,
                        random = seededRandom 42 \<rparr>) \<and>
   wallsSymmetric (grid (gen (generate_start \<lparr> width = 2, height = 3, grid = initializeGrid 2 3,
                        seed = 42, random = seededRandom 42 \<rparr>))) \<and>
   (\<exists>gn. generate \<lparr> width = 2, height = 3, grid = initializeGrid 2 3, seed = 42,
                     random = seededRandom 42 \<rparr> = Inr gn \<and> wallsSymmetric (grid gn))"
proof -
  define G where "G = \<lparr> width = 2, height = 3, grid = initializeGrid 2 3, seed = 42,
              random = seededRandom 42 \<rparr>"
  have c: "MazeGenerator_constructor 2 3 (Some 42) 7 = Inr G"
    by (simp add: MazeGenerator_constructor_def G_def)
  have gg: "grid G = initializeGrid 2 3" by (simp add: G_def)
  have d: "during_generate G (generate_start G)"
    by (simp add: during_generate_def loop_steps_def gg cellAt_initializeGrid)
  have h: "(1::int) \<le> 2" "(1::int) \<le> 3" by simp_all
  have "\<exists>st. generate G = Inr (gen st) \<and> dfs_inv (nat 2) (nat 3) st \<and> loop_body st = Inr None"
    by (rule generate_final_state[OF h c])
  then obtain st :: gen_state where g: "generate G = Inr (gen st)" by blast
  note T = walls_symmetric_throughout[OF c]
  from T have 1: "wallsSymmetric (grid G)" by (rule conjunct1)
  from T have 2: "\<forall>st. during_generate G st \<longrightarrow> wallsSymmetric (grid (gen st))"
    by (rule conjunct2[THEN conjunct1])
  from T have 3: "\<forall>gn. generate G = Inr gn \<longrightarrow> wallsSymmetric (grid gn)"
    by (rule conjunct2[THEN conjunct2])
  have 4: "wallsSymmetric (grid (gen (generate_start G)))" by (rule 2[rule_format, OF d])
  have 5: "wallsSymmetric (grid (gen st))" by (rule 3[rule_format, OF g])
  have 6: "\<exists>gn. generate G = Inr gn \<and> wallsSymmetric (grid gn)"
    by (rule exI[of _ "gen st"]) (rule conjI[OF g 5])
  from 1 gg have 7: "wallsSymmetric (initializeGrid 2 3)" by simp
  from c 7 d 4 6 show ?thesis unfolding G_def by (intro conjI)
qed

section \<open>The seed\<close>

lemma constructor_Inr:
  "MazeGenerator_constructor w h sd drawn =
     Inr \<lparr> width = w, height = h, grid = initializeGrid w h,
           seed = (case sd of None \<Rightarrow> drawn | Some v \<Rightarrow> if v = 0 then drawn else v),
           random = seededRandom (case sd of None \<Rightarrow> drawn | Some v \<Rightarrow> if v = 0 then drawn else v) \<rparr>"
  by (simp add: MazeGenerator_constructor_def Let_def)

lemma seed_zero_two_draws_differ:
  "map_sum id fst (generateAndStart 2 2 (Some 0) 1) \<noteq> map_sum id fst (generateAndStart 2 2 (Some 0) 2)"
  by code_simp

lemma generateAndStart_nonzero_seed:
  "s \<noteq> 0 \<Longrightarrow> generateAndStart w h (Some s) d1 = generateAndStart w h (Some s) d2"
  by (simp add: generateAndStart_def constructor_Inr)

text \<open>
  C1. Two generators built with width 2, height 2 and the explicit seed 0 are seeded
  from two separate draws of \<open>Math.random\<close>; with the draws 1 and 2 the calls
  \<open>generate()\<close> return different wall layouts.
\<close>

theorem determinism_fails_at_seed_zero:
  "map_sum id fst (generateAndStart 2 2 (Some 0) 1) \<noteq>
   map_sum id fst (generateAndStart 2 2 (Some 0) 2)"
  by (rule seed_zero_two_draws_differ)

text \<open>
  C9. The constructor treats the explicit seed 0 exactly as an omitted seed: the stored
  seed is the value drawn from \<open>Math.random\<close>, and two such draws can give different
  mazes; every other supplied seed is stored as it is and seeds the generator.
\<close>

theorem seed_zero_is_redrawn:
  "MazeGenerator_constructor w h (Some 0) drawn = MazeGenerator_constructor w h None drawn \<and>
   (\<exists>g. MazeGenerator_constructor w h (Some 0) drawn = Inr g \<and> seed g = drawn \<and>
        random g = seededRandom drawn) \<and>
   map_sum id fst (generateAndStart 2 2 (Some 0) 1) \<noteq>
     map_sum id fst (generateAndStart 2 2 (Some 0) 2) \<and>
   (s \<noteq> 0 \<longrightarrow>
     (\<exists>g. MazeGenerator_constructor w h (Some s) drawn = Inr g \<and> seed g = s \<and>
          random g = seededRandom s))"
  using seed_zero_two_draws_differ by (simp add: constructor_Inr)

theorem seed_zero_is_redrawn_witness:
  "MazeGenerator_constructor 25 25 (Some 0) 7 = MazeGenerator_constructor 25 25 None 7 \<and>
   (42::int) \<noteq> 0 \<and>
   (\<exists>g. MazeGenerator_constructor 25 25 (Some 42) 7 = Inr g \<and> seed g = 42 \<and>
        random g = seededRandom 42)"
  using seed_zero_is_redrawn[of 25 25 7 42] by simp

lemma initializeGrid_empty:
  assumes "w \<le> 0 \<or> h \<le> 0"
  shows "initializeGrid w h = replicate (nat w) []"
proof (cases "w \<le> 0")
  case True
  then show ?thesis by (simp add: initializeGrid_def)
next
  case False
  with assms have "nat h = 0" by simp
  then show ?thesis by (simp add: initializeGrid_def map_replicate_const)
qed

text \<open>
  C5 as stated fails: the constructor called with width 0 and height 0 returns a
  generator object.
\<close>

theorem constructor_accepts_zero_dimensions:
  "MazeGenerator_constructor 0 0 (Some 42) 7 =
     Inr \<lparr> width = 0, height = 0, grid = [], seed = 42, random = seededRandom 42 \<rparr>"
  by (simp add: constructor_Inr initializeGrid_def)

text \<open>
  C5, amended. With a width or a height of at most 0 the constructor does not fail: it
  returns a generator that stores the dimensions and a grid without cells (no columns,
  or \<open>width\<close> empty columns). The failure comes with the call of \<open>generate()\<close> on that
  generator, which throws a TypeError at the read of the start cell.
\<close>

theorem constructor_nonpositive_dimensions:
  assumes "w \<le> 0 \<or> h \<le> 0"
  shows "\<exists>g0. MazeGenerator_constructor w h sd drawn = Inr g0 \<and> width g0 = w \<and> height g0 = h \<and>
              grid g0 = replicate (nat w) [] \<and> generate g0 = Inl TypeError"
proof -
  let ?s = "case sd of None \<Rightarrow> drawn | Some v \<Rightarrow> if v = 0 then drawn else v"
  let ?g0 = "\<lparr> width = w, height = h, grid = initializeGrid w h, seed = ?s,
               random = seededRandom ?s \<rparr>"
  have c: "MazeGenerator_constructor w h sd drawn = Inr ?g0" by (rule constructor_Inr)
  have g: "grid ?g0 = replicate (nat w) []" by (simp add: initializeGrid_empty[OF assms])
  have "cellAt (replicate (nat w) []) (0, 0) = None" by (simp add: cellAt_def)
  with g have "generate ?g0 = Inl TypeError" by (simp add: generate_def)
  with c g show ?thesis by simp
qed

theorem constructor_nonpositive_dimensions_witness:
  "((3::int) \<le> 0 \<or> (0::int) \<le> 0) \<and>
   (\<exists>g0. MazeGenerator_constructor 3 0 (Some 42) 7 = Inr g0 \<and> width g0 = 3 \<and> height g0 = 0 \<and>
         grid g0 = [[], [], []] \<and> generate g0 = Inl TypeError)"
  using constructor_nonpositive_dimensions[of 3 0 "Some 42" 7]
  by (simp add: numeral_3_eq_3)

section \<open>The start position\<close>

lemma set_interiorRefs:
  "((i, j) \<in> set (interiorRefs w h)) = (0 < i \<and> int i < w - 1 \<and> 0 < j \<and> int j < h - 1)"
proof -
  have "((i, j) \<in> set (interiorRefs w h)) = (i \<in> {1..<nat (w - 1)} \<and> j \<in> {1..<nat (h - 1)})"
    by (auto simp: interiorRefs_def image_iff)
  also have "\<dots> = (0 < i \<and> int i < w - 1 \<and> 0 < j \<and> int j < h - 1)"
    by auto
  finally show ?thesis .
qed

lemma sorted_hd_le:
  assumes "sorted (map f xs)" "c \<in> set xs"
  shows "f (hd xs) \<le> f c"
proof (cases xs)
  case Nil
  with assms(2) show ?thesis by simp
next
  case (Cons a t)
  with assms show ?thesis by auto
qed

lemma getStartPosition_tier:
  assumes inb: "list_all (\<lambda>r. cellAt (grid gn) r \<noteq> None) (interiorRefs (width gn) (height gn))"
    and some: "\<exists>r \<in> set (interiorRefs (width gn) (height gn)). wallsAt gn r \<le> 2"
  shows "mostOpen gn \<noteq> []"
    and "getStartPosition gn =
      Inr ((fst (mostOpen gn ! fst (randomIndex (random gn) (length (mostOpen gn)))) * 4 + 2,
            snd (mostOpen gn ! fst (randomIndex (random gn) (length (mostOpen gn)))) * 4 + 2),
           gn\<lparr> random := snd (randomIndex (random gn) (length (mostOpen gn))) \<rparr>)"
proof -
  define refs where "refs = interiorRefs (width gn) (height gn)"
  define mk where "mk = (\<lambda>r. \<lparr> cand_x = fst r * 4 + 2, cand_z = snd r * 4 + 2,
                           wallCount = wallCountOf (the (cellAt (grid gn) r)) \<rparr>)"
  define cs where "cs = filter (\<lambda>r. wallCountOf (the (cellAt (grid gn) r)) \<le> 2) refs"
  define candidates where "candidates = map mk cs"
  define sorted' where "sorted' = sort_key wallCount candidates"
  define top where "top = filter (\<lambda>c. wallCount c = wallCount (hd sorted')) sorted'"
  have wmk: "\<And>r. wallCount (mk r) = wallsAt gn r" by (simp add: mk_def wallsAt_def)
  have cs_set: "\<And>r. (r \<in> set cs) = (r \<in> set refs \<and> wallsAt gn r \<le> 2)"
    by (simp add: cs_def wallsAt_def)
  from some have "cs \<noteq> []" using cs_set unfolding refs_def[symmetric] by (auto simp: filter_empty_conv cs_def wallsAt_def)
  then have cne: "candidates \<noteq> []" by (simp add: candidates_def)
  then have sne: "sorted' \<noteq> []" unfolding sorted'_def by (metis length_sort length_0_conv)
  then have "hd sorted' \<in> set sorted'" by simp
  then have "hd sorted' \<in> set candidates" by (simp add: sorted'_def)
  then obtain r0 where r0: "r0 \<in> set cs" "hd sorted' = mk r0" by (auto simp: candidates_def)
  have srt: "sorted (map wallCount sorted')" unfolding sorted'_def by (rule sorted_sort_key)
  have min_cs: "\<And>r. r \<in> set cs \<Longrightarrow> wallsAt gn r0 \<le> wallsAt gn r"
  proof -
    fix r assume "r \<in> set cs"
    then have "mk r \<in> set sorted'" by (simp add: sorted'_def candidates_def)
    from sorted_hd_le[OF srt this] show "wallsAt gn r0 \<le> wallsAt gn r" by (simp add: r0(2) wmk)
  qed
  from r0(1) have r0': "r0 \<in> set refs" "wallsAt gn r0 \<le> 2" by (simp_all add: cs_set)
  have min_refs: "\<And>r. r \<in> set refs \<Longrightarrow> wallsAt gn r0 \<le> wallsAt gn r"
  proof -
    fix r assume r: "r \<in> set refs"
    show "wallsAt gn r0 \<le> wallsAt gn r"
    proof (cases "wallsAt gn r \<le> 2")
      case True
      with r have "r \<in> set cs" by (simp add: cs_set)
      then show ?thesis by (rule min_cs)
    next
      case False
      with r0'(2) show ?thesis by simp
    qed
  qed
  have tier_iff: "\<And>r. r \<in> set refs \<Longrightarrow>
      (wallsAt gn r \<le> 2 \<and> wallsAt gn r = wallsAt gn r0) = (\<forall>r' \<in> set refs. wallsAt gn r \<le> wallsAt gn r')"
  proof -
    fix r assume r: "r \<in> set refs"
    show "(wallsAt gn r \<le> 2 \<and> wallsAt gn r = wallsAt gn r0) = (\<forall>r' \<in> set refs. wallsAt gn r \<le> wallsAt gn r')"
    proof
      assume "wallsAt gn r \<le> 2 \<and> wallsAt gn r = wallsAt gn r0"
      with min_refs show "\<forall>r' \<in> set refs. wallsAt gn r \<le> wallsAt gn r'" by simp
    next
      assume a: "\<forall>r' \<in> set refs. wallsAt gn r \<le> wallsAt gn r'"
      with r0'(1) have "wallsAt gn r \<le> wallsAt gn r0" by blast
      with min_refs[OF r] r0'(2) show "wallsAt gn r \<le> 2 \<and> wallsAt gn r = wallsAt gn r0" by simp
    qed
  qed
  have "top = filter (\<lambda>c. wallCount c = wallCount (hd sorted')) candidates"
    unfolding top_def sorted'_def[symmetric]
    unfolding sorted'_def by (rule sort_key_stable)
  also have "\<dots> = map mk (filter (\<lambda>r. wallsAt gn r = wallsAt gn r0) cs)"
    by (simp add: candidates_def filter_map comp_def wmk r0(2))
  also have "filter (\<lambda>r. wallsAt gn r = wallsAt gn r0) cs
           = filter (\<lambda>r. wallsAt gn r \<le> 2 \<and> wallsAt gn r = wallsAt gn r0) refs"
    by (simp add: cs_def wallsAt_def conj_commute)
  also have "\<dots> = mostOpen gn"
    unfolding mostOpen_def refs_def[symmetric]
    by (rule filter_cong[OF refl]) (rule tier_iff)
  finally have top_eq: "top = map mk (mostOpen gn)" .
  from r0'(1) min_refs have "r0 \<in> set (mostOpen gn)"
    unfolding mostOpen_def refs_def[symmetric] by simp
  then show ne: "mostOpen gn \<noteq> []" by auto
  let ?k = "fst (randomIndex (random gn) (length (mostOpen gn)))"
  from ne randomIndex_bound[of "length (mostOpen gn)" "random gn"] have k: "?k < length (mostOpen gn)"
    by simp
  have "getStartPosition gn =
      (let (k, rnd) = randomIndex (random gn) (length top)
       in if k < length top then Inr ((cand_x (top ! k), cand_z (top ! k)), gn\<lparr> random := rnd \<rparr>)
          else Inl TypeError)"
    using inb cne
    unfolding getStartPosition_def Let_def refs_def[symmetric] mk_def[symmetric] cs_def[symmetric]
      candidates_def[symmetric] sorted'_def[symmetric] top_def[symmetric]
    by simp
  also have "\<dots> = Inr ((fst (mostOpen gn ! ?k) * 4 + 2, snd (mostOpen gn ! ?k) * 4 + 2),
           gn\<lparr> random := snd (randomIndex (random gn) (length (mostOpen gn))) \<rparr>)"
    using k by (simp add: top_eq case_prod_beta mk_def)
  finally show "getStartPosition gn =
      Inr ((fst (mostOpen gn ! ?k) * 4 + 2, snd (mostOpen gn ! ?k) * 4 + 2),
           gn\<lparr> random := snd (randomIndex (random gn) (length (mostOpen gn))) \<rparr>)" .
qed

lemma generate_result_wf:
  assumes w: "1 \<le> w" and h: "1 \<le> h"
    and g0: "MazeGenerator_constructor w h sd drawn = Inr g0" and g: "generate g0 = Inr gn"
  shows "width gn = w" "height gn = h" "wf_grid (nat w) (nat h) (grid gn)"
proof -
  from generate_final_state[OF w h g0] obtain st :: gen_state where
    st: "generate g0 = Inr (gen st)" "dfs_inv (nat w) (nat h) st" by blast
  from st(1) g have e: "gen st = gn" by simp
  note D = dfs_invD[OF st(2)]
  from D(1) w show "width gn = w" by (simp add: e)
  from D(2) h show "height gn = h" by (simp add: e)
  from D(3) show "wf_grid (nat w) (nat h) (grid gn)" by (simp add: e)
qed

lemma fallback_when_no_candidate:
  assumes inb: "list_all (\<lambda>r. cellAt (grid gn) r \<noteq> None) (interiorRefs (width gn) (height gn))"
    and none: "\<not> (\<exists>r \<in> set (interiorRefs (width gn) (height gn)). wallsAt gn r \<le> 2)"
  shows "getStartPosition gn = Inr ((2, 2), gn)"
proof -
  from none have "filter (\<lambda>r. wallCountOf (the (cellAt (grid gn) r)) \<le> 2)
                    (interiorRefs (width gn) (height gn)) = []"
    by (simp add: filter_empty_conv wallsAt_def)
  with inb show ?thesis by (simp add: getStartPosition_def Let_def)
qed

text \<open>
  C7 as stated fails: in the 3 by 3 maze of seed 5 the only interior cell, (1, 1) with
  centre (6, 6), has three walls, and \<open>getStartPosition\<close> returns the fallback (2, 2),
  the centre of the corner cell (0, 0).
\<close>

theorem getStartPosition_fallback_is_corner:
  "map_sum id snd (generateAndStart 3 3 (Some 5) 0) = Inr (2, 2) \<and>
   map (\<lambda>r. (fst r * 4 + 2, snd r * 4 + 2)) (interiorRefs 3 3) = [(6, 6)]"
  by code_simp

text \<open>
  C7, amended. After \<open>generate()\<close> on a grid of width and height at least 1,
  \<open>getStartPosition()\<close> does one of two things. If some interior cell has at most two
  walls, it returns \<open>(4 * cx + 2, 4 * cz + 2)\<close>, the centre for the cell size 4 written
  into the function, of an interior cell \<open>(cx, cz)\<close> whose wall count is the least
  among all interior cells; the cell is the one at index \<open>Math.floor(random() * n)\<close>
  in the list of the \<open>n\<close> interior cells of least wall count, taken in scan order,
  where the draw continues the generator's stream after generation. Otherwise, that is
  when every interior cell has three or four walls or there is no interior cell, it
  returns the fixed point (2, 2), the centre of the corner cell (0, 0) where carving
  starts, and draws nothing from the stream.
\<close>

theorem getStartPosition_after_generate:
  assumes "1 \<le> w" and "1 \<le> h"
    and "MazeGenerator_constructor w h sd drawn = Inr g0" and "generate g0 = Inr gn"
  shows "if \<exists>r \<in> set (interiorRefs w h). wallsAt gn r \<le> 2
         then \<exists>cx cz k rnd.
           randomIndex (random gn) (length (mostOpen gn)) = (k, rnd) \<and>
           k < length (mostOpen gn) \<and> mostOpen gn ! k = (cx, cz) \<and>
           getStartPosition gn = Inr ((cx * 4 + 2, cz * 4 + 2), gn\<lparr> random := rnd \<rparr>) \<and>
           0 < cx \<and> int cx < w - 1 \<and> 0 < cz \<and> int cz < h - 1 \<and>
           (\<forall>r' \<in> set (interiorRefs w h). wallsAt gn (cx, cz) \<le> wallsAt gn r')
         else getStartPosition gn = Inr ((2, 2), gn)"
proof -
  note R = generate_result_wf[OF assms(1-4)]
  have inb: "list_all (\<lambda>r. cellAt (grid gn) r \<noteq> None) (interiorRefs (width gn) (height gn))"
    unfolding list_all_iff R(1,2)
  proof
    fix r assume r: "r \<in> set (interiorRefs w h)"
    obtain i j where ij: "r = (i, j)" by (cases r)
    from r ij have "int i < w - 1" "int j < h - 1" by (simp_all add: set_interiorRefs)
    then have "i < nat w" "j < nat h" by simp_all
    with wf_cellAt[OF R(3), of i j] ij show "cellAt (grid gn) r \<noteq> None" by simp
  qed
  show ?thesis
  proof (cases "\<exists>r \<in> set (interiorRefs w h). wallsAt gn r \<le> 2")
    case False
    then have "\<not> (\<exists>r \<in> set (interiorRefs (width gn) (height gn)). wallsAt gn r \<le> 2)"
      by (simp add: R(1,2))
    from fallback_when_no_candidate[OF inb this] False show ?thesis by simp
  next
    case True
    then have some: "\<exists>r \<in> set (interiorRefs (width gn) (height gn)). wallsAt gn r \<le> 2"
      by (simp add: R(1,2))
    note T = getStartPosition_tier[OF inb some]
    obtain k rnd where kr: "randomIndex (random gn) (length (mostOpen gn)) = (k, rnd)"
      by (cases "randomIndex (random gn) (length (mostOpen gn))")
    from T(1) randomIndex_bound[of "length (mostOpen gn)" "random gn"] kr
    have k: "k < length (mostOpen gn)" by simp
    obtain cx cz where c: "mostOpen gn ! k = (cx, cz)" by (cases "mostOpen gn ! k")
    from k have "mostOpen gn ! k \<in> set (mostOpen gn)" by simp
    then have "(cx, cz) \<in> set (mostOpen gn)" by (simp add: c)
    then have m: "(cx, cz) \<in> set (interiorRefs w h)"
        "\<forall>r' \<in> set (interiorRefs w h). wallsAt gn (cx, cz) \<le> wallsAt gn r'"
      unfolding mostOpen_def R(1,2) by simp_all
    from T(2) kr c have "getStartPosition gn = Inr ((cx * 4 + 2, cz * 4 + 2), gn\<lparr> random := rnd \<rparr>)"
      by simp
    with kr k c m have "\<exists>cx cz k rnd.
           randomIndex (random gn) (length (mostOpen gn)) = (k, rnd) \<and>
           k < length (mostOpen gn) \<and> mostOpen gn ! k = (cx, cz) \<and>
           getStartPosition gn = Inr ((cx * 4 + 2, cz * 4 + 2), gn\<lparr> random := rnd \<rparr>) \<and>
           0 < cx \<and> int cx < w - 1 \<and> 0 < cz \<and> int cz < h - 1 \<and>
           (\<forall>r' \<in> set (interiorRefs w h). wallsAt gn (cx, cz) \<le> wallsAt gn r')"
      by (simp add: set_interiorRefs)
    with True show ?thesis by simp
  qed
qed

lemma start_seed_42_eval:
  "case generate \<lparr> width = 5, height = 5, grid = initializeGrid 5 5, seed = 42,
                   random = seededRandom 42 \<rparr> of
     Inl e \<Rightarrow> False
   | Inr gn \<Rightarrow> list_ex (\<lambda>r. wallsAt gn r \<le> 2) (interiorRefs 5 5) \<and>
               map_sum id fst (getStartPosition gn) = Inr (14, 14)"
  by code_simp

lemma start_seed_42_every_run:
  "map_sum id snd (generateAndStart 5 5 (Some 42) drawn) = Inr (14, 14)"
proof -
  have "map_sum id snd (generateAndStart 5 5 (Some 42) 0) = Inr (14, 14)" by code_simp
  then show ?thesis using generateAndStart_nonzero_seed[of 42 5 5 drawn 0] by simp
qed

lemma start_seed_5_eval:
  "case generate \<lparr> width = 3, height = 3, grid = initializeGrid 3 3, seed = 5,
                   random = seededRandom 5 \<rparr> of
     Inl e \<Rightarrow> False
   | Inr gn \<Rightarrow> interiorRefs 3 3 = [(1, 1)] \<and> wallsAt gn (1, 1) = 3"
  by code_simp

theorem getStartPosition_after_generate_witness:
  "(1::int) \<le> 5 \<and>
   MazeGenerator_constructor 5 5 (Some 42) 7 =
     Inr \<lparr> width = 5, height = 5, grid = initializeGrid 5 5, seed = 42, random = seededRandom 42 \<rparr> \<and>
   (\<exists>gn cx cz rnd.
      generate \<lparr> width = 5, height = 5, grid = initializeGrid 5 5, seed = 42,
                 random = seededRandom 42 \<rparr> = Inr gn \<and>
      (\<exists>r \<in> set (interiorRefs 5 5). wallsAt gn r \<le> 2) \<and>
      getStartPosition gn = Inr ((cx * 4 + 2, cz * 4 + 2), gn\<lparr> random := rnd \<rparr>) \<and>
      (cx * 4 + 2, cz * 4 + 2) = (14, 14) \<and>
      0 < cx \<and> int cx < 5 - 1 \<and> 0 < cz \<and> int cz < 5 - 1) \<and>
   (1::int) \<le> 3 \<and>
   MazeGenerator_constructor 3 3 (Some 5) 7 =
     Inr \<lparr> width = 3, height = 3, grid = initializeGrid 3 3, seed = 5, random = seededRandom 5 \<rparr> \<and>
   interiorRefs 3 3 = [(1, 1)] \<and>
   (\<exists>gn.
      generate \<lparr> width = 3, height = 3, grid = initializeGrid 3 3, seed = 5,
                 random = seededRandom 5 \<rparr> = Inr gn \<and>
      wallsAt gn (1, 1) = 3 \<and>
      getStartPosition gn = Inr ((2, 2), gn))"
proof -
  define G where "G = \<lparr> width = 5, height = 5, grid = initializeGrid 5 5, seed = 42,
                        random = seededRandom 42 \<rparr>"
  define G3 where "G3 = \<lparr> width = 3, height = 3, grid = initializeGrid 3 3, seed = 5,
                         random = seededRandom 5 \<rparr>"
  have c: "MazeGenerator_constructor 5 5 (Some 42) 7 = Inr G"
    by (simp add: MazeGenerator_constructor_def G_def)
  have c3: "MazeGenerator_constructor 3 3 (Some 5) 7 = Inr G3"
    by (simp add: MazeGenerator_constructor_def G3_def)
  from start_seed_42_eval obtain gn :: MazeGenerator where g: "generate G = Inr gn"
    and ex: "\<exists>r \<in> set (interiorRefs 5 5). wallsAt gn r \<le> 2"
    and p: "map_sum id fst (getStartPosition gn) = Inr (14, 14)"
    unfolding G_def[symmetric] by (cases "generate G") (auto simp: list_ex_iff)
  have h: "(1::int) \<le> 5" by simp
  from getStartPosition_after_generate[OF h h c g] ex obtain cx cz rnd where
    r: "getStartPosition gn = Inr ((cx * 4 + 2, cz * 4 + 2), gn\<lparr> random := rnd \<rparr>)"
       "0 < cx" "int cx < 5 - 1" "0 < cz" "int cz < 5 - 1" by auto
  from r(1) p have e: "(cx * 4 + 2, cz * 4 + 2) = (14, 14)" by simp
  have A: "\<exists>gn cx cz rnd.
      generate G = Inr gn \<and>
      (\<exists>r \<in> set (interiorRefs 5 5). wallsAt gn r \<le> 2) \<and>
      getStartPosition gn = Inr ((cx * 4 + 2, cz * 4 + 2), gn\<lparr> random := rnd \<rparr>) \<and>
      (cx * 4 + 2, cz * 4 + 2) = (14, 14) \<and>
      0 < cx \<and> int cx < 5 - 1 \<and> 0 < cz \<and> int cz < 5 - 1"
    using g ex r e by blast
  from start_seed_5_eval obtain gm :: MazeGenerator where g3: "generate G3 = Inr gm"
    and i3: "interiorRefs 3 3 = [(1, 1)]"
    and w3: "wallsAt gm (1, 1) = 3"
    unfolding G3_def[symmetric] by (cases "generate G3") auto
  from i3 w3 have nex: "\<not> (\<exists>r \<in> set (interiorRefs 3 3). wallsAt gm r \<le> 2)" by simp
  have h3: "(1::int) \<le> 3" by simp
  from getStartPosition_after_generate[OF h3 h3 c3 g3] nex
  have f: "getStartPosition gm = Inr ((2, 2), gm)" by simp
  have B: "\<exists>gn. generate G3 = Inr gn \<and> wallsAt gn (1, 1) = 3 \<and>
      getStartPosition gn = Inr ((2, 2), gn)"
    using g3 w3 f by blast
  from h c A h3 c3 i3 B show ?thesis unfolding G_def G3_def by (intro conjI)
qed

section \<open>Properties of collision and movement\<close>

lemma nearWall_unfold:
  "nearWall c cellSize p =
     (north (walls c) \<and> localOffset cellSize (vz p) < 0.3 \<or>
      south (walls c) \<and> localOffset cellSize (vz p) > cellSize - 0.3 \<or>
      west (walls c) \<and> localOffset cellSize (vx p) < 0.3 \<or>
      east (walls c) \<and> localOffset cellSize (vx p) > cellSize - 0.3)"
  (is "?L = ?R")
proof
  assume ?L
  then obtain d where d: "wallIn d (walls c)"
    "wallDistance d cellSize (localOffset cellSize (vx p)) (localOffset cellSize (vz p)) < 0.3"
    unfolding nearWall_def by blast
  then show ?R by (cases d) simp_all
next
  assume ?R
  then consider (n) "north (walls c) \<and> localOffset cellSize (vz p) < 0.3"
    | (s) "south (walls c) \<and> localOffset cellSize (vz p) > cellSize - 0.3"
    | (w) "west (walls c) \<and> localOffset cellSize (vx p) < 0.3"
    | (e) "east (walls c) \<and> localOffset cellSize (vx p) > cellSize - 0.3"
    by blast
  then show ?L
  proof cases
    case n then show ?thesis unfolding nearWall_def by (intro exI[of _ North]) simp
  next
    case s then show ?thesis unfolding nearWall_def by (intro exI[of _ South]) simp
  next
    case w then show ?thesis unfolding nearWall_def by (intro exI[of _ West]) simp
  next
    case e then show ?thesis unfolding nearWall_def by (intro exI[of _ East]) simp
  qed
qed

lemma checkCollision_cases:
  "checkCollision maze cellSize p =
     (if \<not> inBounds maze cellSize p then Inr True
      else case cellOf maze cellSize p of
             None \<Rightarrow> Inl TypeError
           | Some c \<Rightarrow> Inr (nearWall c cellSize p))"
proof -
  have oob: "(mazeCoord cellSize (vx p) < 0 \<or> int (length maze) \<le> mazeCoord cellSize (vx p) \<or>
              mazeCoord cellSize (vz p) < 0 \<or> int (length (maze ! 0)) \<le> mazeCoord cellSize (vz p))
           = (\<not> inBounds maze cellSize p)"
    unfolding inBounds_def by auto
  have "checkCollision maze cellSize p =
     (if mazeCoord cellSize (vx p) < 0 \<or> int (length maze) \<le> mazeCoord cellSize (vx p) \<or>
         mazeCoord cellSize (vz p) < 0 \<or> int (length (maze ! 0)) \<le> mazeCoord cellSize (vz p)
      then Inr True
      else case cellOf maze cellSize p of
             None \<Rightarrow> Inl TypeError
           | Some cell \<Rightarrow>
               if north (walls cell) \<and> localOffset cellSize (vz p) < 0.3 then Inr True
               else if south (walls cell) \<and> localOffset cellSize (vz p) > cellSize - 0.3 then Inr True
               else if west (walls cell) \<and> localOffset cellSize (vx p) < 0.3 then Inr True
               else if east (walls cell) \<and> localOffset cellSize (vx p) > cellSize - 0.3 then Inr True
               else Inr False)"
    unfolding checkCollision_def Let_def cellOf_def localOffset_def mazeCoord_def by (rule refl)
  also have "\<dots> = (if \<not> inBounds maze cellSize p then Inr True
      else case cellOf maze cellSize p of
             None \<Rightarrow> Inl TypeError
           | Some c \<Rightarrow> Inr (nearWall c cellSize p))"
    unfolding oob by (simp add: nearWall_unfold split: option.splits)
  finally show ?thesis .
qed

lemma m1: "mazeCoord 4 10 = 2" "mazeCoord 4 8.1 = 2" "mazeCoord 4 7.6 = 1"
  by (simp_all add: mazeCoord_def floor_eq_iff)

lemma l1: "localOffset 4 8.1 = 0.1" "localOffset 4 10 = 2" "localOffset 4 7.6 = 3.6" 
  unfolding localOffset_def m1 by simp_all

lemma sc_len: "length scenarioMaze = 5" "length (scenarioMaze ! 0) = 5"
  by (simp_all add: scenarioMaze_def initializeGrid_def)

lemma sc_cells:
  "cellAt scenarioMaze (2, 2) = Some ((newCell 2 2)\<lparr> walls := \<lparr> north = True, south = False, east = True, west = False \<rparr> \<rparr>)"
  "cellAt scenarioMaze (2, 1) = Some (newCell 2 1)"
  by (simp_all add: scenarioMaze_def cellAt_updCell cellAt_initializeGrid setWalls_def)

lemma checkCollision_free_inBounds:
  "checkCollision maze cellSize p = Inr False \<Longrightarrow> inBounds maze cellSize p"
  by (simp add: checkCollision_cases split: if_splits)

lemma inBounds_upd [simp]:
  "inBounds maze cellSize (p\<lparr> vy := y \<rparr>) = inBounds maze cellSize p"
  by (simp add: inBounds_def)

lemma resolveMove_errX:
  assumes "checkCollision maze cellSize (cur\<lparr> vx := vx cur + vx velocity \<rparr>) = Inl e"
  shows "resolveMove maze cellSize cur velocity = (cur, Some e)"
  using assms by (simp add: resolveMove_def Let_def)

lemma resolveMove_errZ:
  assumes "checkCollision maze cellSize (cur\<lparr> vx := vx cur + vx velocity \<rparr>) = Inr hitX"
    and "cur1 = (if hitX then cur else cur\<lparr> vx := vx cur + vx velocity \<rparr>)"
    and "checkCollision maze cellSize (cur1\<lparr> vz := vz cur + vz velocity \<rparr>) = Inl e"
  shows "resolveMove maze cellSize cur velocity = (cur1, Some e)"
  using assms by (cases hitX) (simp_all add: resolveMove_def Let_def)

lemma resolveMove_eq:
  assumes "checkCollision maze cellSize (cur\<lparr> vx := vx cur + vx velocity \<rparr>) = Inr hitX"
    and "cur1 = (if hitX then cur else cur\<lparr> vx := vx cur + vx velocity \<rparr>)"
    and "checkCollision maze cellSize (cur1\<lparr> vz := vz cur + vz velocity \<rparr>) = Inr hitZ"
  shows "resolveMove maze cellSize cur velocity =
           (if hitZ then cur1 else cur1\<lparr> vz := vz cur + vz velocity \<rparr>, None)"
  using assms by (cases hitX; cases hitZ) (simp_all add: resolveMove_def Let_def)

lemma resolveMove_inBounds:
  assumes b: "inBounds maze cellSize cur"
  shows "inBounds maze cellSize (fst (resolveMove maze cellSize cur velocity))"
proof -
  let ?tX = "cur\<lparr> vx := vx cur + vx velocity \<rparr>"
  show ?thesis
  proof (cases "checkCollision maze cellSize ?tX")
    case (Inl e)
    from resolveMove_errX[OF this] b show ?thesis by simp
  next
    case (Inr hitX)
    define cur1 where "cur1 = (if hitX then cur else ?tX)"
    have b1: "inBounds maze cellSize cur1"
    proof (cases hitX)
      case True
      with b show ?thesis by (simp add: cur1_def)
    next
      case False
      with Inr have "checkCollision maze cellSize ?tX = Inr False" by simp
      from checkCollision_free_inBounds[OF this] False show ?thesis by (simp add: cur1_def)
    qed
    let ?tZ = "cur1\<lparr> vz := vz cur + vz velocity \<rparr>"
    show ?thesis
    proof (cases "checkCollision maze cellSize ?tZ")
      case (Inl e)
      from resolveMove_errZ[OF Inr cur1_def this] b1 show ?thesis by simp
    next
      case z: (Inr hitZ)
      note E = resolveMove_eq[OF Inr cur1_def z]
      show ?thesis
      proof (cases hitZ)
        case True
        with E b1 show ?thesis by simp
      next
        case False
        with z have "checkCollision maze cellSize ?tZ = Inr False" by simp
        from checkCollision_free_inBounds[OF this] E False show ?thesis by simp
      qed
    qed
  qed
qed

lemma checkCollision_rectangular:
  assumes "rectangular maze"
  shows "\<exists>hit. checkCollision maze cellSize p = Inr hit"
proof (cases "inBounds maze cellSize p")
  case False
  then have "checkCollision maze cellSize p = Inr True" by (simp add: checkCollision_cases)
  then show ?thesis ..
next
  case True
  let ?i = "nat (mazeCoord cellSize (vx p))" and ?j = "nat (mazeCoord cellSize (vz p))"
  from True have i: "?i < length maze" and j: "?j < length (maze ! 0)"
    unfolding inBounds_def by linarith+
  from assms i have "length (maze ! ?i) = length (maze ! 0)"
    by (simp add: rectangular_def list_all_length)
  with i j have "cellOf maze cellSize p \<noteq> None" by (simp add: cellOf_def cellAt_def)
  with True show ?thesis by (auto simp: checkCollision_cases)
qed

lemma resolveMove_rectangular:
  assumes r: "rectangular maze"
  shows "snd (resolveMove maze cellSize cur velocity) = None"
proof -
  let ?tX = "cur\<lparr> vx := vx cur + vx velocity \<rparr>"
  from checkCollision_rectangular[OF r, of cellSize ?tX] obtain hitX where
    x: "checkCollision maze cellSize ?tX = Inr hitX" by blast
  define cur1 where "cur1 = (if hitX then cur else ?tX)"
  from checkCollision_rectangular[OF r, of cellSize "cur1\<lparr> vz := vz cur + vz velocity \<rparr>"]
  obtain hitZ where z: "checkCollision maze cellSize (cur1\<lparr> vz := vz cur + vz velocity \<rparr>) = Inr hitZ"
    by blast
  from resolveMove_eq[OF x cur1_def z] show ?thesis by simp
qed

text \<open>
  C8. A player whose position maps to a cell of the grid (column index in
  \<open>[0, maze.length)\<close>, row index in \<open>[0, maze[0].length)\<close>) is, after one movement step of
  the frame callback with any velocity and any outcome of the door ray test, again at
  a position that maps to a cell of the grid; on a rectangular grid the step raises
  no exception.
\<close>

theorem movement_stays_in_grid:
  assumes "0 < cellSize" and "inBounds maze cellSize cur"
  shows "inBounds maze cellSize (fst (useFrame_move maze cellSize cur velocity doorAhead)) \<and>
         (rectangular maze \<longrightarrow> snd (useFrame_move maze cellSize cur velocity doorAhead) = None)"
  using assms(2) resolveMove_inBounds[OF assms(2), of velocity] resolveMove_rectangular[of maze cellSize cur velocity]
  by (simp add: useFrame_move_def)

lemma sc_rect: "rectangular scenarioMaze"
  by (simp add: rectangular_def scenarioMaze_def updCell_def initializeGrid_def list_all_length nth_list_update)

lemma m2: "mazeCoord 4 2 = 0" "mazeCoord 4 (-1) = -1" "mazeCoord 4 8.5 = 2" "mazeCoord 4 10.5 = 2"
  "mazeCoord 4 8.2 = 2"
  by (simp_all add: mazeCoord_def floor_eq_iff)

lemma l2: "localOffset 4 2 = 2" "localOffset 4 8.5 = 0.5" "localOffset 4 10.5 = 2.5" "localOffset 4 8.2 = 0.2"
  unfolding localOffset_def m2 by simp_all

lemma sc_cell00: "cellAt scenarioMaze (0, 0) = Some (newCell 0 0)"
  by (simp add: scenarioMaze_def cellAt_updCell cellAt_initializeGrid)

lemma sc_corner:
  "checkCollision scenarioMaze 4 \<lparr> vx = -1, vy = 1.7, vz = 2 \<rparr> = Inr True"
  "checkCollision scenarioMaze 4 \<lparr> vx = 2, vy = 1.7, vz = 2 \<rparr> = Inr False"
  by (simp_all add: checkCollision_cases inBounds_def cellOf_def m2 l2 sc_len sc_cell00 nearWall_unfold
       newCell_def)

theorem movement_stays_in_grid_witness:
  "(0::real) < 4 \<and>
   inBounds scenarioMaze 4 \<lparr> vx = 2, vy = 1.7, vz = 2 \<rparr> \<and>
   useFrame_move scenarioMaze 4 \<lparr> vx = 2, vy = 1.7, vz = 2 \<rparr> \<lparr> vx = -3, vy = 0, vz = 0 \<rparr> False =
     (\<lparr> vx = 2, vy = 1.7, vz = 2 \<rparr>, None) \<and>
   inBounds scenarioMaze 4
     (fst (useFrame_move scenarioMaze 4 \<lparr> vx = 2, vy = 1.7, vz = 2 \<rparr> \<lparr> vx = -3, vy = 0, vz = 0 \<rparr> False)) \<and>
   rectangular scenarioMaze"
proof -
  have b: "inBounds scenarioMaze 4 \<lparr> vx = 2, vy = 1.7, vz = 2 \<rparr>"
    by (simp add: inBounds_def m2 sc_len)
  have r: "resolveMove scenarioMaze 4 \<lparr> vx = 2, vy = 1.7, vz = 2 \<rparr> \<lparr> vx = -3, vy = 0, vz = 0 \<rparr> =
     (\<lparr> vx = 2, vy = 1.7, vz = 2 \<rparr>, None)"
    by (simp add: resolveMove_def Let_def sc_corner)
  have z: "(0::real) < 4" by simp
  from movement_stays_in_grid[OF z b, of "\<lparr> vx = -3, vy = 0, vz = 0 \<rparr>" False] b r sc_rect
  show ?thesis by (simp add: useFrame_move_def)
qed

lemma nearWall_not:
  "(\<not> nearWall c cellSize p) =
     (\<forall>d. wallIn d (walls c) \<longrightarrow>
          0.3 \<le> wallDistance d cellSize (localOffset cellSize (vx p)) (localOffset cellSize (vz p)))"
  unfolding nearWall_def by (simp add: not_less)

text \<open>
  C10. \<open>checkCollision\<close> is a function of the candidate position alone: it answers
  \<open>true\<close> exactly when the candidate maps outside the grid or lies within 0.3 of a
  present wall of the cell it maps to (and throws when that cell is missing from a
  ragged grid). An accepted candidate is at least 0.3 from every present wall of its
  cell. A player who stands inside the buffer of a wall and moves along Z only, by any
  amount that leaves the candidate in collision, is not moved, whichever way the
  movement points.
\<close>

theorem checkCollision_position_only:
  "checkCollision maze cellSize p =
     (if \<not> inBounds maze cellSize p then Inr True
      else case cellOf maze cellSize p of
             None \<Rightarrow> Inl TypeError
           | Some c \<Rightarrow> Inr (nearWall c cellSize p)) \<and>
   (checkCollision maze cellSize p = Inr False \<longrightarrow>
      (\<exists>c. cellOf maze cellSize p = Some c \<and>
        (\<forall>d. wallIn d (walls c) \<longrightarrow>
           0.3 \<le> wallDistance d cellSize (localOffset cellSize (vx p)) (localOffset cellSize (vz p))))) \<and>
   (checkCollision maze cellSize cur = Inr True \<and> vx velocity = 0 \<and>
    checkCollision maze cellSize (cur\<lparr> vz := vz cur + vz velocity \<rparr>) = Inr True \<longrightarrow>
      resolveMove maze cellSize cur velocity = (cur, None))"
proof (intro conjI impI)
  show "checkCollision maze cellSize p =
     (if \<not> inBounds maze cellSize p then Inr True
      else case cellOf maze cellSize p of
             None \<Rightarrow> Inl TypeError
           | Some c \<Rightarrow> Inr (nearWall c cellSize p))"
    by (rule checkCollision_cases)
next
  assume a: "checkCollision maze cellSize p = Inr False"
  then obtain c where c: "cellOf maze cellSize p = Some c" "\<not> nearWall c cellSize p"
    by (cases "cellOf maze cellSize p") (auto simp: checkCollision_cases split: if_splits)
  from c(2) have "\<forall>d. wallIn d (walls c) \<longrightarrow>
           0.3 \<le> wallDistance d cellSize (localOffset cellSize (vx p)) (localOffset cellSize (vz p))"
    by (simp only: nearWall_not)
  with c(1) show "\<exists>c. cellOf maze cellSize p = Some c \<and>
        (\<forall>d. wallIn d (walls c) \<longrightarrow>
           0.3 \<le> wallDistance d cellSize (localOffset cellSize (vx p)) (localOffset cellSize (vz p)))"
    by blast
next
  assume a: "checkCollision maze cellSize cur = Inr True \<and> vx velocity = 0 \<and>
    checkCollision maze cellSize (cur\<lparr> vz := vz cur + vz velocity \<rparr>) = Inr True"
  then have x: "checkCollision maze cellSize (cur\<lparr> vx := vx cur + vx velocity \<rparr>) = Inr True" by simp
  have c1: "cur = (if True then cur else cur\<lparr> vx := vx cur + vx velocity \<rparr>)" by simp
  from a have z: "checkCollision maze cellSize (cur\<lparr> vz := vz cur + vz velocity \<rparr>) = Inr True" by simp
  from resolveMove_eq[OF x c1 z] show "resolveMove maze cellSize cur velocity = (cur, None)" by simp
qed

lemma m3: "mazeCoord 4 (38 / 5) = 1" "mazeCoord 4 (41 / 5) = 2" "mazeCoord 4 (17 / 2) = 2"
  "mazeCoord 4 (21 / 2) = 2" "mazeCoord 4 (81 / 10) = 2"
  by (simp_all add: mazeCoord_def floor_eq_iff)

lemma l3: "localOffset 4 (38 / 5) = 18 / 5" "localOffset 4 (41 / 5) = 1 / 5"
  "localOffset 4 (17 / 2) = 1 / 2" "localOffset 4 (21 / 2) = 5 / 2" "localOffset 4 (81 / 10) = 1 / 10"
  unfolding localOffset_def m3 by simp_all

lemma sc_cell21: "cellAt scenarioMaze (2, Suc 0) = Some (newCell 2 (Suc 0))"
  using sc_cells(2) by simp

lemma sc_in_buffer:
  "checkCollision scenarioMaze 4 \<lparr> vx = 10, vy = 1.7, vz = 8.2 \<rparr> = Inr True"
  by (simp add: checkCollision_cases inBounds_def cellOf_def m1 m2 m3 l1 l2 l3 sc_len sc_cells nearWall_unfold)

lemma sc_x: "checkCollision scenarioMaze 4 \<lparr> vx = 10, vy = 1.7, vz = 8.1 \<rparr> = Inr True"
  by (simp add: checkCollision_cases inBounds_def cellOf_def m1 m3 l1 l3 sc_len sc_cells nearWall_unfold)

lemma sc_z: "checkCollision scenarioMaze 4 \<lparr> vx = 10, vy = 1.7, vz = 7.6 \<rparr> = Inr False"
  by (simp add: checkCollision_cases inBounds_def cellOf_def m1 m3 l1 l3 sc_len sc_cells sc_cell21 nearWall_unfold newCell_def)

theorem checkCollision_position_only_witness:
  "checkCollision scenarioMaze 4 \<lparr> vx = 10, vy = 1.7, vz = 7.6 \<rparr> = Inr False \<and>
   cellOf scenarioMaze 4 \<lparr> vx = 10, vy = 1.7, vz = 7.6 \<rparr> = Some (newCell 2 1) \<and>
   wallIn South (walls (newCell 2 1)) \<and>
   0.3 \<le> wallDistance South 4 (localOffset 4 10) (localOffset 4 7.6) \<and>
   checkCollision scenarioMaze 4 \<lparr> vx = 10, vy = 1.7, vz = 8.1 \<rparr> = Inr True \<and>
   checkCollision scenarioMaze 4 \<lparr> vx = 10, vy = 1.7, vz = 8.2 \<rparr> = Inr True \<and>
   resolveMove scenarioMaze 4 \<lparr> vx = 10, vy = 1.7, vz = 8.1 \<rparr> \<lparr> vx = 0, vy = 0, vz = 0.1 \<rparr> =
     (\<lparr> vx = 10, vy = 1.7, vz = 8.1 \<rparr>, None)"
proof -
  note T1 = checkCollision_position_only[of scenarioMaze 4 "\<lparr> vx = 10, vy = 1.7, vz = 7.6 \<rparr>"
      "\<lparr> vx = 10, vy = 1.7, vz = 8.1 \<rparr>" "\<lparr> vx = 0, vy = 0, vz = 0.1 \<rparr>"]
  have c: "cellOf scenarioMaze 4 \<lparr> vx = 10, vy = 1.7, vz = 7.6 \<rparr> = Some (newCell 2 1)"
    by (simp add: cellOf_def m1 m3 sc_cells sc_cell21)
  have w: "wallIn South (walls (newCell 2 1))" by (simp add: newCell_def)
  from T1 sc_z c have a: "\<forall>d. wallIn d (walls (newCell 2 1)) \<longrightarrow>
       0.3 \<le> wallDistance d 4 (localOffset 4 (vx \<lparr> vx = 10, vy = 1.7, vz = 7.6 \<rparr>))
                (localOffset 4 (vz \<lparr> vx = 10, vy = 1.7, vz = 7.6 \<rparr>))"
    by simp
  from a[rule_format, of South, OF w]
  have d: "0.3 \<le> wallDistance South 4 (localOffset 4 10) (localOffset 4 7.6)"
    by (simp only: Vector3.simps)
  from T1 sc_x sc_in_buffer
  have r: "resolveMove scenarioMaze 4 \<lparr> vx = 10, vy = 1.7, vz = 8.1 \<rparr> \<lparr> vx = 0, vy = 0, vz = 0.1 \<rparr> =
     (\<lparr> vx = 10, vy = 1.7, vz = 8.1 \<rparr>, None)"
    by simp
  from sc_z c w d sc_x sc_in_buffer r show ?thesis by (intro conjI)
qed

lemma m4: "mazeCoord 4 (83 / 10) = 2"
  by (simp add: mazeCoord_def floor_eq_iff)

lemma l4: "localOffset 4 (83 / 10) = 3 / 10"
  unfolding localOffset_def m4 by simp

lemma sc_legal: "checkCollision scenarioMaze 4 \<lparr> vx = 10, vy = 1.7, vz = 8.3 \<rparr> = Inr False"
  by (simp add: checkCollision_cases inBounds_def cellOf_def m1 m4 l1 l4 sc_len sc_cells nearWall_unfold)

text \<open>
  C4. The Z move towards a present north wall is committed in the scenario of the
  claim. \<open>checkCollision\<close> looks only at the cell the candidate position maps to, and
  the step length \<open>moveSpeed * delta\<close> is not bounded, so a step that carries the
  candidate over the 0.3 band on both sides of a wall passes through the wall. In a
  5 by 5 grid whose cell (2, 2) has the walls north and east only and whose other cells
  have all four walls, with cell size 4, the player at (10, 8.1), that is at the local
  offset (2.0, 0.1) of cell (2, 2), moves by (0, -0.5): the candidate z = 7.6 maps to
  cell (2, 1) at the local offset 3.6, which is within 0.3 of no edge, and the player
  ends at (10, 7.6), on the other side of the north wall of (2, 2) and of the south wall
  of (2, 1). The same happens from a position that \<open>checkCollision\<close> accepts: from
  (10, 8.3), at the local offset 0.3, the step (0, -0.7) ends at (10, 7.6) as well.
\<close>

theorem north_wall_is_passed_through:
  "cellOf scenarioMaze 4 \<lparr> vx = 10, vy = 1.7, vz = 8.1 \<rparr> =
     Some ((newCell 2 2)\<lparr> walls := \<lparr> north = True, south = False, east = True, west = False \<rparr> \<rparr>) \<and>
   localOffset 4 10 = 2 \<and> localOffset 4 8.1 = 0.1 \<and>
   resolveMove scenarioMaze 4 \<lparr> vx = 10, vy = 1.7, vz = 8.1 \<rparr> \<lparr> vx = 0, vy = 0, vz = -0.5 \<rparr> =
     (\<lparr> vx = 10, vy = 1.7, vz = 7.6 \<rparr>, None) \<and>
   cellOf scenarioMaze 4 \<lparr> vx = 10, vy = 1.7, vz = 7.6 \<rparr> = Some (newCell 2 1) \<and>
   south (walls (newCell 2 1)) \<and> localOffset 4 7.6 = 3.6 \<and>
   localOffset 4 8.3 = 0.3 \<and>
   checkCollision scenarioMaze 4 \<lparr> vx = 10, vy = 1.7, vz = 8.3 \<rparr> = Inr False \<and>
   resolveMove scenarioMaze 4 \<lparr> vx = 10, vy = 1.7, vz = 8.3 \<rparr> \<lparr> vx = 0, vy = 0, vz = -0.7 \<rparr> =
     (\<lparr> vx = 10, vy = 1.7, vz = 7.6 \<rparr>, None)"
proof -
  have a: "cellOf scenarioMaze 4 \<lparr> vx = 10, vy = 1.7, vz = 8.1 \<rparr> =
     Some ((newCell 2 2)\<lparr> walls := \<lparr> north = True, south = False, east = True, west = False \<rparr> \<rparr>)"
    by (simp add: cellOf_def m1 m3 sc_cells)
  have b: "localOffset 4 10 = 2" "localOffset 4 8.1 = 0.1" "localOffset 4 7.6 = 3.6"
    "localOffset 4 8.3 = 0.3"
    by (simp_all add: l1 l3 l4)
  have c: "resolveMove scenarioMaze 4 \<lparr> vx = 10, vy = 1.7, vz = 8.1 \<rparr> \<lparr> vx = 0, vy = 0, vz = -0.5 \<rparr> =
     (\<lparr> vx = 10, vy = 1.7, vz = 7.6 \<rparr>, None)"
    using sc_x sc_z by (simp add: resolveMove_def Let_def)
  have d: "cellOf scenarioMaze 4 \<lparr> vx = 10, vy = 1.7, vz = 7.6 \<rparr> = Some (newCell 2 1)"
    by (simp add: cellOf_def m1 m3 sc_cells sc_cell21)
  have e: "south (walls (newCell 2 1))" by (simp add: newCell_def)
  have f: "resolveMove scenarioMaze 4 \<lparr> vx = 10, vy = 1.7, vz = 8.3 \<rparr> \<lparr> vx = 0, vy = 0, vz = -0.7 \<rparr> =
     (\<lparr> vx = 10, vy = 1.7, vz = 7.6 \<rparr>, None)"
    using sc_legal sc_z by (simp add: resolveMove_def Let_def)
  from a b(1,2) c d e b(3,4) sc_legal f show ?thesis by (intro conjI)
qed

text \<open>
  What the per-axis commit does ensure: the Z candidate is tested at the X that the
  X test has left, and when that candidate maps to a cell of the grid whose north wall
  is present, at a local Z-offset below 0.3, the Z move is rejected; X is committed
  exactly when the position (new x, current z) is free of collision.
\<close>

lemma north_wall_rejects_z:
  assumes "checkCollision maze cellSize (cur\<lparr> vx := vx cur + vx velocity \<rparr>) = Inr hitX"
    and "x' = (if hitX then vx cur else vx cur + vx velocity)"
    and "inBounds maze cellSize (cur\<lparr> vx := x', vz := vz cur + vz velocity \<rparr>)"
    and "cellOf maze cellSize (cur\<lparr> vx := x', vz := vz cur + vz velocity \<rparr>) = Some c"
    and "north (walls c)"
    and "localOffset cellSize (vz cur + vz velocity) < 0.3"
  shows "resolveMove maze cellSize cur velocity = (cur\<lparr> vx := x' \<rparr>, None)"
proof -
  let ?tX = "cur\<lparr> vx := x' \<rparr>"
  have c1: "?tX = (if hitX then cur else cur\<lparr> vx := vx cur + vx velocity \<rparr>)"
    by (simp add: assms(2))
  from assms(5,6) have "nearWall c cellSize (?tX\<lparr> vz := vz cur + vz velocity \<rparr>)"
    by (simp add: nearWall_unfold)
  with assms(3,4) have z: "checkCollision maze cellSize (?tX\<lparr> vz := vz cur + vz velocity \<rparr>) = Inr True"
    by (simp add: checkCollision_cases)
  from resolveMove_eq[OF assms(1) c1 z] show ?thesis by simp
qed

lemma north_wall_rejects_z_example:
  "resolveMove scenarioMaze 4 \<lparr> vx = 10, vy = 1.7, vz = 8.5 \<rparr> \<lparr> vx = 0.5, vy = 0, vz = -0.3 \<rparr> =
     (\<lparr> vx = 10.5, vy = 1.7, vz = 8.5 \<rparr>, None) \<and>
   resolveMove scenarioMaze 4 \<lparr> vx = 10, vy = 1.7, vz = 8.5 \<rparr> \<lparr> vx = 2, vy = 0, vz = -0.3 \<rparr> =
     (\<lparr> vx = 10, vy = 1.7, vz = 8.5 \<rparr>, None)"
proof -
  let ?c = "(newCell 2 2)\<lparr> walls := \<lparr> north = True, south = False, east = True, west = False \<rparr> \<rparr>"
  have x: "checkCollision scenarioMaze 4 \<lparr> vx = 10.5, vy = 1.7, vz = 8.5 \<rparr> = Inr False"
    by (simp add: checkCollision_cases inBounds_def cellOf_def m2 m3 l2 l3 sc_len sc_cells nearWall_unfold)
  have b: "inBounds scenarioMaze 4 \<lparr> vx = 10.5, vy = 1.7, vz = 8.2 \<rparr>"
    by (simp add: inBounds_def m2 m3 sc_len)
  have c: "cellOf scenarioMaze 4 \<lparr> vx = 10.5, vy = 1.7, vz = 8.2 \<rparr> = Some ?c"
    by (simp add: cellOf_def m2 m3 sc_cells)
  have n: "north (walls ?c)" by simp
  have l: "localOffset 4 8.2 < 0.3" by (simp add: l2 l3)
  have r1: "resolveMove scenarioMaze 4 \<lparr> vx = 10, vy = 1.7, vz = 8.5 \<rparr> \<lparr> vx = 0.5, vy = 0, vz = -0.3 \<rparr> =
     (\<lparr> vx = 10.5, vy = 1.7, vz = 8.5 \<rparr>, None)"
    using north_wall_rejects_z[of scenarioMaze 4 "\<lparr> vx = 10, vy = 1.7, vz = 8.5 \<rparr>"
        "\<lparr> vx = 0.5, vy = 0, vz = -0.3 \<rparr>" False "10.5"
        "(newCell 2 2)\<lparr> walls := \<lparr> north = True, south = False, east = True, west = False \<rparr> \<rparr>"] x b c l
    by simp
  have m: "mazeCoord 4 12 = 3"  by (simp add: mazeCoord_def floor_eq_iff)
  have lm: "localOffset 4 12 = 0" unfolding localOffset_def m by simp
  have c3: "cellAt scenarioMaze (3, 2) = Some (newCell 3 2)"
    by (simp add: scenarioMaze_def cellAt_updCell cellAt_initializeGrid)
  have x2: "checkCollision scenarioMaze 4 \<lparr> vx = 12, vy = 1.7, vz = 8.5 \<rparr> = Inr True"
    by (simp add: checkCollision_cases inBounds_def cellOf_def m m2 m3 lm l2 l3 sc_len c3 nearWall_unfold newCell_def)
  have b2: "inBounds scenarioMaze 4 \<lparr> vx = 10, vy = 1.7, vz = 8.2 \<rparr>"
    by (simp add: inBounds_def m1 m2 m3 sc_len)
  have c2: "cellOf scenarioMaze 4 \<lparr> vx = 10, vy = 1.7, vz = 8.2 \<rparr> = Some ?c"
    by (simp add: cellOf_def m1 m2 m3 sc_cells)
  have r2: "resolveMove scenarioMaze 4 \<lparr> vx = 10, vy = 1.7, vz = 8.5 \<rparr> \<lparr> vx = 2, vy = 0, vz = -0.3 \<rparr> =
     (\<lparr> vx = 10, vy = 1.7, vz = 8.5 \<rparr>, None)"
    using north_wall_rejects_z[of scenarioMaze 4 "\<lparr> vx = 10, vy = 1.7, vz = 8.5 \<rparr>"
        "\<lparr> vx = 2, vy = 0, vz = -0.3 \<rparr>" True 10
        "(newCell 2 2)\<lparr> walls := \<lparr> north = True, south = False, east = True, west = False \<rparr> \<rparr>"] x2 b2 c2 l
    by simp
  from r1 r2 show ?thesis by (intro conjI)
qed

lemma drawEach_append: "drawEach g (ws @ vs) st = drawEach g vs (drawEach g ws st)"
  by (induction ws arbitrary: st) (auto split: prod.splits)

lemma maze3d_wall_drawEach: "maze3d_wall d x z st = drawEach sceneStep [(x, z, d)] st"
  by (simp add: maze3d_wall_def sceneStep_def split: prod.splits)

lemma ascii_wall_drawEach: "ascii_wall d x z st = drawEach asciiStep [(x, z, d)] st"
  by (simp add: ascii_wall_def asciiStep_def split: prod.splits)

lemma drawEach_steps:
  "drawEach g ((if a then [ka] else []) @ (if b then [kb] else []) @ (if c then [kc] else [])
               @ (if d then [kd] else [])) st =
   (let st1 = (if a then drawEach g [ka] st else st);
        st2 = (if b then drawEach g [kb] st1 else st1);
        st3 = (if c then drawEach g [kc] st2 else st2);
        st4 = (if d then drawEach g [kd] st3 else st3)
    in st4)"
  by (simp add: drawEach_append Let_def)

lemma cellWalls_ifs:
  "cellWalls x z cell =
     (if north (walls cell) then [(x, z, North)] else []) @
     (if south (walls cell) then [(x, z, South)] else []) @
     (if east (walls cell) then [(x, z, East)] else []) @
     (if west (walls cell) then [(x, z, West)] else [])"
  by (simp add: cellWalls_def)

lemma maze3d_cell_drawEach: "maze3d_cell x z cell st = drawEach sceneStep (cellWalls x z cell) st"
  unfolding cellWalls_ifs drawEach_steps maze3d_cell_def maze3d_wall_drawEach by (rule refl)

lemma ascii_cell_drawEach: "ascii_cell x z cell st = drawEach asciiStep (cellWalls x z cell) st"
  unfolding cellWalls_ifs drawEach_steps ascii_cell_def ascii_wall_drawEach by (rule refl)

section \<open>The two door sets agree\<close>

lemma forEach_drawEach:
  assumes "\<And>i a st. f i a st = drawEach g (ws i a) st"
  shows "forEach f i xs st = drawEach g (concat (map (\<lambda>(i, a). ws i a) (enumerate i xs))) st"
  by (induction xs arbitrary: i st) (simp_all add: assms drawEach_append)

lemma spec_presentWalls_cellWalls:
  "spec_presentWalls g =
     concat (map (\<lambda>(x, row). concat (map (\<lambda>(z, cell). cellWalls x z cell) (enumerate 0 row)))
               (enumerate 0 g))"
  by (simp add: spec_presentWalls_def cellWalls_def)

lemma maze3d_walls_drawEach:
  "maze3d_walls maze sd = fst (drawEach sceneStep (spec_presentWalls maze) ([], seededRandom sd))"
proof -
  have inner: "\<And>x row st. forEach (\<lambda>z cell. maze3d_cell x z cell) 0 row st =
      drawEach sceneStep (concat (map (\<lambda>(z, cell). cellWalls x z cell) (enumerate 0 row))) st"
    by (rule forEach_drawEach) (rule maze3d_cell_drawEach)
  show ?thesis
    unfolding maze3d_walls_def spec_presentWalls_cellWalls
    by (subst forEach_drawEach[where g = sceneStep and
          ws = "\<lambda>x row. concat (map (\<lambda>(z, cell). cellWalls x z cell) (enumerate 0 row))"])
       (simp_all add: inner)
qed

lemma printMazeASCII_doorMap_drawEach:
  "printMazeASCII_doorMap maze sd = fst (drawEach asciiStep (spec_presentWalls maze) ([], seededRandom sd))"
proof -
  have inner: "\<And>x row st. forEach (\<lambda>z cell. ascii_cell x z cell) 0 row st =
      drawEach asciiStep (concat (map (\<lambda>(z, cell). cellWalls x z cell) (enumerate 0 row))) st"
    by (rule forEach_drawEach) (rule ascii_cell_drawEach)
  show ?thesis
    unfolding printMazeASCII_doorMap_def spec_presentWalls_cellWalls
    by (subst forEach_drawEach[where g = asciiStep and
          ws = "\<lambda>x row. concat (map (\<lambda>(z, cell). cellWalls x z cell) (enumerate 0 row))"])
       (simp_all add: inner)
qed

lemma sceneDoors_append_door:
  "sceneDoors (els @ [Mesh WallLeft d x z, Mesh WallRight d x z, Mesh WallTop d x z, Mesh DoorMesh d x z])
     = insert (x, z, d) (sceneDoors els)"
  by (auto simp: sceneDoors_def)

lemma sceneDoors_append_wall: "sceneDoors (els @ [Mesh WallFull d x z]) = sceneDoors els"
  by (auto simp: sceneDoors_def)

lemma sceneDoors_sceneStep:
  "sceneDoors (sceneStep w b els) = sceneDoors els \<union> (if b then {w} else {})"
  by (cases w) (simp add: sceneStep_def sceneDoors_append_door sceneDoors_append_wall)

lemma set_asciiStep: "set (asciiStep w b m) = set m \<union> (if b then {w} else {})"
  by (auto simp: asciiStep_def doorMap_add_def)

lemma sceneDoors_drawEach:
  "sceneDoors (fst (drawEach sceneStep ws (els, r))) = sceneDoors els \<union> set (spec_drawDoors 0.1 r ws)"
proof (induction ws arbitrary: els r)
  case Nil
  show ?case by simp
next
  case (Cons w ws)
  obtain v r' where n: "rng_next r = (v, r')" by (cases "rng_next r")
  have rb: "randomBelowTenth r = (v < 0.1, r')" by (simp add: randomBelowTenth_def n)
  have 1: "drawEach sceneStep (w # ws) (els, r) = drawEach sceneStep ws (sceneStep w (v < 0.1) els, r')"
    by (simp add: rb)
  have 2: "set (spec_drawDoors 0.1 r (w # ws)) = (if v < 0.1 then {w} else {}) \<union> set (spec_drawDoors 0.1 r' ws)"
    by (simp add: n)
  show ?case unfolding 1 2 Cons.IH sceneDoors_sceneStep by (rule Un_assoc)
qed

lemma doorMap_drawEach:
  "set (fst (drawEach asciiStep ws (m, r))) = set m \<union> set (spec_drawDoors 0.1 r ws)"
proof (induction ws arbitrary: m r)
  case Nil
  show ?case by simp
next
  case (Cons w ws)
  obtain v r' where n: "rng_next r = (v, r')" by (cases "rng_next r")
  have rb: "randomBelowTenth r = (v < 0.1, r')" by (simp add: randomBelowTenth_def n)
  have 1: "drawEach asciiStep (w # ws) (m, r) = drawEach asciiStep ws (asciiStep w (v < 0.1) m, r')"
    by (simp add: rb)
  have 2: "set (spec_drawDoors 0.1 r (w # ws)) = (if v < 0.1 then {w} else {}) \<union> set (spec_drawDoors 0.1 r' ws)"
    by (simp add: n)
  show ?case unfolding 1 2 Cons.IH set_asciiStep by (rule Un_assoc)
qed

text \<open>
  C3. For every grid and seed the doors of the scene the 3D builder constructs and the
  door map of the debug view are the same set, and it is the set the door placement
  function of the specification computes: fresh generator from the seed, cells in the
  order x ascending then z ascending, walls in the order north, south, east, west, one
  draw for each present wall, a door when the draw is below 0.10.
\<close>

theorem door_sets_agree:
  "sceneDoors (maze3d_walls maze sd) = set (printMazeASCII_doorMap maze sd) \<and>
   sceneDoors (maze3d_walls maze sd) = spec_computeDoors maze sd"
proof -
  have e: "sceneDoors [] = {}" by (simp add: sceneDoors_def)
  have t: "(0.10::real) = 0.1" by simp
  have 1: "sceneDoors (maze3d_walls maze sd) = spec_computeDoors maze sd"
    unfolding maze3d_walls_drawEach sceneDoors_drawEach spec_computeDoors_def t e by simp
  have 2: "set (printMazeASCII_doorMap maze sd) = spec_computeDoors maze sd"
    unfolding printMazeASCII_doorMap_drawEach doorMap_drawEach spec_computeDoors_def t by simp
  from 1 2 show ?thesis by simp
qed

lemma randomBelowTenth_code [code]:
  "randomBelowTenth r = (rng_result (rng_step r) * 10 < 4294967296, rng_step r)"
proof -
  have "(real_of_int (rng_result (rng_step r)) / 4294967296 < 0.1)
      = (real_of_int (rng_result (rng_step r)) * 10 < 4294967296)"
    by (simp add: field_simps)
  also have "\<dots> = (real_of_int (rng_result (rng_step r) * 10) < real_of_int 4294967296)" by simp
  also have "\<dots> = (rng_result (rng_step r) * 10 < 4294967296)" by (simp only: of_int_less_iff)
  finally show ?thesis by (simp add: randomBelowTenth_def rng_next_def)
qed

lemma doorMap_seed_42_eval:
  "case generateAndStart 3 3 (Some 42) 0 of
     Inl e \<Rightarrow> False
   | Inr (g, p) \<Rightarrow> printMazeASCII_doorMap g 42 = [(2, 0, East), (2, 2, North)]"
  by code_simp

theorem door_sets_agree_witness:
  "\<exists>g p. generateAndStart 3 3 (Some 42) 0 = Inr (g, p) \<and>
         printMazeASCII_doorMap g 42 = [(2, 0, East), (2, 2, North)] \<and>
         sceneDoors (maze3d_walls g 42) = {(2, 0, East), (2, 2, North)} \<and>
         spec_computeDoors g 42 = {(2, 0, East), (2, 2, North)}"
proof -
  from doorMap_seed_42_eval obtain g :: Grid and p :: "nat \<times> nat" where
    g: "generateAndStart 3 3 (Some 42) 0 = Inr (g, p)"
    and m: "printMazeASCII_doorMap g 42 = [(2, 0, East), (2, 2, North)]"
    by (cases "generateAndStart 3 3 (Some 42) 0") auto
  from door_sets_agree[of g 42] m
  have "sceneDoors (maze3d_walls g 42) = {(2, 0, East), (2, 2, North)}"
    "spec_computeDoors g 42 = {(2, 0, East), (2, 2, North)}" by auto
  with g m show ?thesis by blast
qed

end
